theory Spec2Isabelle
  imports Main "HOL-Library.Multiset" "HOL-Library.Sublist"
begin

section \<open>The cancellable scope (package context, as used by pipeline.go)\<close>

text \<open>
  A Go \<^verbatim>\<open>error\<close> is an interface value that may be \<^verbatim>\<open>nil\<close>: it is modelled as
  \<open>err option\<close>, with \<open>None\<close> for \<^verbatim>\<open>nil\<close>. \<open>Canceled\<close> is the runtime's sentinel
  \<^verbatim>\<open>context.Canceled\<close>.
\<close>

datatype err = Canceled | DeadlineExceeded | Failure string

text \<open>
  The state of a context: what \<^verbatim>\<open>ctx.Err()\<close> and \<^verbatim>\<open>context.Cause(ctx)\<close> return.
  Both are \<^verbatim>\<open>nil\<close> until the context is cancelled.
\<close>

record Context =
  ctx_err :: "err option"
  ctx_cause :: "err option"

definition Background :: Context where
  "Background = \<lparr>ctx_err = None, ctx_cause = None\<rparr>"

definition cancelled :: "Context \<Rightarrow> bool" where
  "cancelled c = (ctx_err c \<noteq> None)"

definition Cause :: "Context \<Rightarrow> err option" where
  "Cause c = ctx_cause c"

text \<open>
  \<^verbatim>\<open>context.WithCancelCause(parent)\<close>: the child starts out cancelled, with the parent's
  error and cause, exactly when the parent is already done.
\<close>

definition WithCancelCause :: "Context \<Rightarrow> Context" where
  "WithCancelCause parent =
     (if ctx_err parent = None then \<lparr>ctx_err = None, ctx_cause = None\<rparr>
      else \<lparr>ctx_err = ctx_err parent, ctx_cause = ctx_cause parent\<rparr>)"

text \<open>
  The \<^verbatim>\<open>CancelCauseFunc\<close> returned by \<^verbatim>\<open>WithCancelCause\<close>: the first call cancels the
  context with error \<^verbatim>\<open>Canceled\<close> and records the cause, a \<^verbatim>\<open>nil\<close> cause being recorded
  as \<^verbatim>\<open>Canceled\<close>; on a context that is already cancelled it does nothing.
\<close>

definition cancel :: "err option \<Rightarrow> Context \<Rightarrow> Context" where
  "cancel cause c =
     (if ctx_err c \<noteq> None then c
      else \<lparr>ctx_err = Some Canceled,
            ctx_cause = Some (case cause of None \<Rightarrow> Canceled | Some e \<Rightarrow> e)\<rparr>)"

section \<open>The Pipeline controller (pipeline.go)\<close>

datatype writer = Discard | Stdout | Stderr

record logger =
  log_out :: writer
  log_prefix :: string
  log_flags :: nat

definition LstdFlags :: nat where
  "LstdFlags = 3"

text \<open>
  The struct \<^verbatim>\<open>Pipeline\<close>: the counter of its WaitGroup and the logger pointer
  (\<open>None\<close> is the \<^verbatim>\<open>nil\<close> pointer). Its \<^verbatim>\<open>cancel\<close> field is the function \<open>cancel\<close>
  above, bound to the derived context.
\<close>

record pipeline =
  wg :: int
  logger :: "logger option"

type_synonym pipeline_option = "pipeline \<Rightarrow> pipeline"

definition WithLogger :: "logger option \<Rightarrow> pipeline_option" where
  "WithLogger l = (\<lambda>p. p\<lparr>logger := l\<rparr>)"

definition New :: "Context \<Rightarrow> pipeline_option list \<Rightarrow> pipeline \<times> Context" where
  "New parent opts =
     (let childCtx = WithCancelCause parent;
          p = \<lparr>wg = 0, logger = Some \<lparr>log_out = Discard, log_prefix = ''[pipeline] '', log_flags = LstdFlags\<rparr>\<rparr>
      in (fold (\<lambda>opt p. opt p) opts p, childCtx))"

text \<open>\<^verbatim>\<open>Pipeline.Stop(err)\<close> is \<^verbatim>\<open>p.cancel(err)\<close>, acting on the derived context.\<close>

definition Stop :: "err option \<Rightarrow> Context \<Rightarrow> Context" where
  "Stop e c = cancel e c"

text \<open>
  The driver's final test (main, after \<^verbatim>\<open>p.Wait()\<close>): the run counts as failed when
  the cause is neither \<^verbatim>\<open>nil\<close> nor \<^verbatim>\<open>context.Canceled\<close>.
\<close>

definition main_failed :: "Context \<Rightarrow> bool" where
  "main_failed c = (Cause c \<noteq> None \<and> Cause c \<noteq> Some Canceled)"

section \<open>The stages (Source, FanOut, Sink) and the driver's wiring\<close>

text \<open>
  The generator passed to \<^verbatim>\<open>Source\<close> is caller-supplied code. A finite, non-blocking
  generator is modelled as a finite straight-line program over the three things the
  driver's generator does: \<open>Emit x\<close> is the plain send \<^verbatim>\<open>out <- x\<close> (not raced against
  cancellation), \<open>Check\<close> is \<^verbatim>\<open>if ctx.Err() != nil { return }\<close>, and \<open>Fail e\<close> is
  \<^verbatim>\<open>p.Stop(e); return\<close>.
\<close>

datatype 'a gen_op = Check | Fail err | Emit 'a

text \<open>
  The driver's generator (main): \<^verbatim>\<open>filepath.Walk\<close> calls the callback once per entry.
  An entry with a walk error stops the pipeline and the walk; otherwise the callback
  checks \<^verbatim>\<open>ctx.Err()\<close>, skips an entry that is not a regular file, and sends the path.
\<close>

datatype 'a entry = WalkErr err | NotRegular | Regular 'a

fun walk_ops :: "'a entry list \<Rightarrow> 'a gen_op list" where
  "walk_ops [] = []"
| "walk_ops (WalkErr e # es) = Fail e # walk_ops es"
| "walk_ops (NotRegular # es) = Check # walk_ops es"
| "walk_ops (Regular x # es) = Check # Emit x # walk_ops es"

fun emits :: "'a gen_op list \<Rightarrow> 'a list" where
  "emits [] = []"
| "emits (Emit x # ops) = x # emits ops"
| "emits (_ # ops) = emits ops"

text \<open>
  Control points of the tasks.
  \<^item> Source's task: running the generator (the operations still to run), blocked in
    the generator's send \<^verbatim>\<open>out <- x\<close> (the item and the operations after it), generator
    returned (the deferred \<^verbatim>\<open>close(out)\<close> is pending), done.
  \<^item> FanOut's supervising task: in the spawning loop with counter \<open>i\<close> (after the loop it
    waits in \<^verbatim>\<open>wg.Wait()\<close> and closes), done.
  \<^item> A FanOut worker: reaching the outer \<^verbatim>\<open>select\<close> (receive or cancellation),
    blocked in it waiting for an item, holding a received item before \<^verbatim>\<open>fn(item)\<close>, at
    the inner \<^verbatim>\<open>select\<close> (send of the result or cancellation), returned.
  \<^item> Sink's task: at its \<^verbatim>\<open>select\<close>, returned.
\<close>

datatype 'a src_state =
  SrcRun "'a gen_op list" | SrcBlocked 'a "'a gen_op list" | SrcRet | SrcDone

datatype sup_state = SupLoop int | SupDone

datatype ('a, 'b) worker = WRecv | WWait | WProc 'a | WSend 'b | WDone

datatype snk_state = SnkRecv | SnkDone

record ('a, 'b) config =
  gen :: "'a gen_op list"
  workerCount :: int
  transform :: "'a \<Rightarrow> err + 'b"

text \<open>
  The shared state of a run: the derived context, the counter of the pipeline's WaitGroup
  (\<open>pwg\<close>) and of FanOut's own WaitGroup (\<open>fwg\<close>), the control point of every task (the
  workers in the order they were spawned), the number of \<^verbatim>\<open>close\<close> calls made on
  Source's channel (\<open>closes1\<close>) and on FanOut's channel (\<open>closes2\<close>), the items that were
  handed over on Source's channel (\<open>hist1\<close>), and the items the consumer of Sink was
  called with (\<open>sunk\<close>), both in order. The channels are unbuffered, so they hold no items.
\<close>

record ('a, 'b) state =
  ctx :: Context
  pwg :: int
  fwg :: int
  src :: "'a src_state"
  sup :: sup_state
  workers :: "('a, 'b) worker list"
  snk :: snk_state
  closes1 :: nat
  closes2 :: nat
  hist1 :: "'a list"
  sunk :: "'b list"

text \<open>
  The driver's wiring: \<^verbatim>\<open>New\<close> on the background context, then \<^verbatim>\<open>Source\<close>, \<^verbatim>\<open>FanOut\<close>
  and \<^verbatim>\<open>Sink\<close>, each of which calls \<^verbatim>\<open>p.Add\<close> once before returning, so the pipeline's
  counter is 3 when \<^verbatim>\<open>p.Wait()\<close> is reached.
\<close>

definition init :: "('a, 'b) config \<Rightarrow> ('a, 'b) state" where
  "init cfg =
     \<lparr>ctx = snd (New Background []), pwg = 3, fwg = 0,
      src = SrcRun (gen cfg), sup = SupLoop 0, workers = [], snk = SnkRecv,
      closes1 = 0, closes2 = 0, hist1 = [], sunk = []\<rparr>"

text \<open>\<^verbatim>\<open>p.Wait()\<close> returns when the pipeline's counter is zero.\<close>

definition Wait_returns :: "('a, 'b) state \<Rightarrow> bool" where
  "Wait_returns s = (pwg s = 0)"

text \<open>
  One atomic action of the run. \<^verbatim>\<open>Pipeline.Add\<close> (pipeline.go) increments the
  pipeline's counter and starts the task, whose return decrements it; the stage
  constructors are in the stages file. A task's action is its next shared operation
  together with the local computation up to it; an action that is not enabled gives
  \<open>None\<close>. Go's \<^verbatim>\<open>select\<close> may take any case that is ready, so every ready case is an
  enabled action.
  \<^item> \<open>SrcStep\<close> (\<^verbatim>\<open>Source\<close>, \<^verbatim>\<open>fn(out)\<close>): the generator's next \<open>Check\<close> or \<open>Fail\<close>, its
    return, or its send \<^verbatim>\<open>out <- x\<close> blocking: the channel is unbuffered and the send is
    a plain send, so it blocks when no worker is waiting in its receive, or when the
    waiting workers have been woken by the cancellation.
  \<^item> \<open>SrcSend w\<close>: the hand-over of an item from the generator to worker \<open>w\<close>: either
    the generator reaches its send while worker \<open>w\<close> waits in its receive and the scope
    is not cancelled (a waiting worker is woken by the cancellation and takes that
    case), or the generator is blocked in its send and worker \<open>w\<close> reaches its
    \<^verbatim>\<open>select\<close> and takes the receive.
  \<^item> \<open>WorkerWait w\<close>: worker \<open>w\<close> reaches its outer \<^verbatim>\<open>select\<close> and no case is ready (the
    scope is not cancelled, the input channel is open and the generator is not blocked
    in its send); the worker blocks.
  \<^item> \<open>SrcClose\<close> (\<^verbatim>\<open>Source\<close>): the deferred \<^verbatim>\<open>close(out)\<close> of Source's task and its
    \<^verbatim>\<open>p.wg.Done()\<close>.
  \<^item> \<open>Spawn\<close> (\<^verbatim>\<open>FanOut\<close>): one iteration of \<^verbatim>\<open>for i := 0; i < workerCount; i++\<close>:
    \<^verbatim>\<open>wg.Add(1); p.Add(worker)\<close>.
  \<^item> \<open>SupClose\<close> (\<^verbatim>\<open>FanOut\<close>): the loop has ended, \<^verbatim>\<open>wg.Wait()\<close> returns because FanOut's
    counter is zero, then \<^verbatim>\<open>close(out)\<close> and the task's \<^verbatim>\<open>p.wg.Done()\<close>.
  \<^item> \<open>WorkerClosed w\<close>: the worker's receive reports the input channel closed
    (\<^verbatim>\<open>!ok\<close>); the worker returns.
  \<^item> \<open>WorkerCancel w\<close>: the outer or the inner \<^verbatim>\<open>select\<close> of the worker takes
    \<^verbatim>\<open><-ctx.Done()\<close>; the worker returns.
  \<^item> \<open>WorkerProc w\<close>: \<^verbatim>\<open>result, err := fn(item)\<close>; on an error \<^verbatim>\<open>p.Stop(err)\<close> and return,
    otherwise on to the inner \<^verbatim>\<open>select\<close>.
  \<^item> \<open>WorkerSend w\<close>: the send \<^verbatim>\<open>out <- result\<close> of worker \<open>w\<close> meets the receive of
    \<^verbatim>\<open>Sink\<close>, whose consumer \<^verbatim>\<open>fn(item)\<close> is called with the item. Both ends of this
    channel are \<^verbatim>\<open>select\<close> statements that also watch \<^verbatim>\<open>ctx.Done()\<close>: a party blocked in
    its \<^verbatim>\<open>select\<close> is woken by the cancellation and takes that case, and a party that
    reaches its \<^verbatim>\<open>select\<close> afterwards finds no partner blocked in the channel. So the
    hand-over takes place only while the scope is not cancelled.
  \<^item> \<open>SnkClosed\<close>, \<open>SnkCancel\<close> (\<^verbatim>\<open>Sink\<close>): the receive reports the channel closed, or
    the \<^verbatim>\<open>select\<close> takes \<^verbatim>\<open><-ctx.Done()\<close>; the task returns.
  \<^item> \<open>ExtStop c\<close>: \<^verbatim>\<open>p.Stop(c)\<close> called from outside the stages (induced cancellation).
  A returning worker runs its deferred \<^verbatim>\<open>wg.Done()\<close> and the \<^verbatim>\<open>p.wg.Done()\<close> of \<^verbatim>\<open>Add\<close>.
\<close>

datatype label =
    SrcStep | SrcSend nat | SrcClose
  | Spawn | SupClose
  | WorkerWait nat | WorkerClosed nat | WorkerCancel nat | WorkerProc nat | WorkerSend nat
  | SnkClosed | SnkCancel
  | ExtStop "err option"

fun src_blocked :: "'a src_state \<Rightarrow> bool" where
  "src_blocked (SrcBlocked x ops) = True"
| "src_blocked _ = False"

definition worker_return :: "nat \<Rightarrow> ('a, 'b) state \<Rightarrow> ('a, 'b) state" where
  "worker_return w s =
     s\<lparr>workers := (workers s)[w := WDone], fwg := fwg s - 1, pwg := pwg s - 1\<rparr>"

fun step :: "('a, 'b) config \<Rightarrow> label \<Rightarrow> ('a, 'b) state \<Rightarrow> ('a, 'b) state option" where
  "step cfg SrcStep s =
     (case src s of
        SrcRun [] \<Rightarrow> Some (s\<lparr>src := SrcRet\<rparr>)
      | SrcRun (Check # ops) \<Rightarrow>
          Some (s\<lparr>src := (if cancelled (ctx s) then SrcRet else SrcRun ops)\<rparr>)
      | SrcRun (Fail e # ops) \<Rightarrow> Some (s\<lparr>ctx := Stop (Some e) (ctx s), src := SrcRet\<rparr>)
      | SrcRun (Emit x # ops) \<Rightarrow>
          if cancelled (ctx s) \<or> WWait \<notin> set (workers s)
          then Some (s\<lparr>src := SrcBlocked x ops\<rparr>) else None
      | SrcBlocked x ops \<Rightarrow> None
      | SrcRet \<Rightarrow> None
      | SrcDone \<Rightarrow> None)"
| "step cfg (SrcSend w) s =
     (case src s of
        SrcRun (Emit x # ops) \<Rightarrow>
          if w < length (workers s) \<and> workers s ! w = WWait \<and> \<not> cancelled (ctx s)
          then Some (s\<lparr>src := SrcRun ops, workers := (workers s)[w := WProc x],
                       hist1 := hist1 s @ [x]\<rparr>)
          else None
      | SrcBlocked x ops \<Rightarrow>
          if w < length (workers s) \<and> workers s ! w = WRecv
          then Some (s\<lparr>src := SrcRun ops, workers := (workers s)[w := WProc x],
                       hist1 := hist1 s @ [x]\<rparr>)
          else None
      | _ \<Rightarrow> None)"
| "step cfg SrcClose s =
     (if src s = SrcRet
      then Some (s\<lparr>src := SrcDone, closes1 := closes1 s + 1, pwg := pwg s - 1\<rparr>)
      else None)"
| "step cfg Spawn s =
     (case sup s of
        SupLoop i \<Rightarrow>
          if i < workerCount cfg
          then Some (s\<lparr>sup := SupLoop (i + 1), workers := workers s @ [WRecv],
                       fwg := fwg s + 1, pwg := pwg s + 1\<rparr>)
          else None
      | SupDone \<Rightarrow> None)"
| "step cfg SupClose s =
     (case sup s of
        SupLoop i \<Rightarrow>
          if \<not> i < workerCount cfg \<and> fwg s = 0
          then Some (s\<lparr>sup := SupDone, closes2 := closes2 s + 1, pwg := pwg s - 1\<rparr>)
          else None
      | SupDone \<Rightarrow> None)"
| "step cfg (WorkerWait w) s =
     (if w < length (workers s) \<and> workers s ! w = WRecv \<and> \<not> cancelled (ctx s) \<and>
         closes1 s = 0 \<and> \<not> src_blocked (src s)
      then Some (s\<lparr>workers := (workers s)[w := WWait]\<rparr>) else None)"
| "step cfg (WorkerClosed w) s =
     (if w < length (workers s) \<and> (workers s ! w = WRecv \<or> workers s ! w = WWait) \<and>
         0 < closes1 s
      then Some (worker_return w s) else None)"
| "step cfg (WorkerCancel w) s =
     (if w < length (workers s) \<and> cancelled (ctx s)
      then (case workers s ! w of
              WRecv \<Rightarrow> Some (worker_return w s)
            | WWait \<Rightarrow> Some (worker_return w s)
            | WSend r \<Rightarrow> Some (worker_return w s)
            | _ \<Rightarrow> None)
      else None)"
| "step cfg (WorkerProc w) s =
     (if w < length (workers s)
      then (case workers s ! w of
              WProc x \<Rightarrow>
                (case transform cfg x of
                   Inl e \<Rightarrow> Some (worker_return w (s\<lparr>ctx := Stop (Some e) (ctx s)\<rparr>))
                 | Inr r \<Rightarrow> Some (s\<lparr>workers := (workers s)[w := WSend r]\<rparr>))
            | _ \<Rightarrow> None)
      else None)"
| "step cfg (WorkerSend w) s =
     (if w < length (workers s) \<and> snk s = SnkRecv \<and> \<not> cancelled (ctx s)
      then (case workers s ! w of
              WSend r \<Rightarrow> Some (s\<lparr>workers := (workers s)[w := WRecv], sunk := sunk s @ [r]\<rparr>)
            | _ \<Rightarrow> None)
      else None)"
| "step cfg SnkClosed s =
     (if snk s = SnkRecv \<and> 0 < closes2 s
      then Some (s\<lparr>snk := SnkDone, pwg := pwg s - 1\<rparr>) else None)"
| "step cfg SnkCancel s =
     (if snk s = SnkRecv \<and> cancelled (ctx s)
      then Some (s\<lparr>snk := SnkDone, pwg := pwg s - 1\<rparr>) else None)"
| "step cfg (ExtStop c) s = Some (s\<lparr>ctx := Stop c (ctx s)\<rparr>)"

text \<open>A run is a finite sequence of actions, each enabled where it is taken.\<close>

fun exec :: "('a, 'b) config \<Rightarrow> label list \<Rightarrow> ('a, 'b) state \<Rightarrow> ('a, 'b) state option" where
  "exec cfg [] s = Some s"
| "exec cfg (l # ls) s = (case step cfg l s of None \<Rightarrow> None | Some s' \<Rightarrow> exec cfg ls s')"

text \<open>The actions of the tasks that are enabled in a state (all but \<open>ExtStop\<close>).\<close>

definition task_labels :: "('a, 'b) state \<Rightarrow> label list" where
  "task_labels s =
     [SrcStep, SrcClose, Spawn, SupClose, SnkClosed, SnkCancel] @
     concat (map (\<lambda>w. [SrcSend w, WorkerWait w, WorkerClosed w, WorkerCancel w,
                       WorkerProc w, WorkerSend w])
                 [0 ..< length (workers s)])"

definition enabled :: "('a, 'b) config \<Rightarrow> ('a, 'b) state \<Rightarrow> label list" where
  "enabled cfg s = filter (\<lambda>l. step cfg l s \<noteq> None) (task_labels s)"

text \<open>The actions in which worker \<open>w\<close> takes part.\<close>

definition worker_labels :: "nat \<Rightarrow> label list" where
  "worker_labels w =
     [SrcSend w, WorkerWait w, WorkerClosed w, WorkerCancel w, WorkerProc w, WorkerSend w]"

text \<open>
  Worker \<open>w\<close> is stopped by the cancellation: the scope is cancelled and the worker has
  returned, or is at its send, or is blocked in its receive.
\<close>

definition stopped :: "nat \<Rightarrow> ('a, 'b) state \<Rightarrow> bool" where
  "stopped w s =
     (w < length (workers s) \<and> cancelled (ctx s) \<and>
      (case workers s ! w of
         WRecv \<Rightarrow> False
       | WWait \<Rightarrow> True
       | WProc x \<Rightarrow> False
       | WSend r \<Rightarrow> True
       | WDone \<Rightarrow> True))"

section \<open>Invariants of a run\<close>

text \<open>
  A worker is live until it has returned. \<open>tasks_live\<close> counts the tasks registered with
  the pipeline that have not returned yet.
\<close>

definition live :: "('a, 'b) worker \<Rightarrow> bool" where
  "live w = (w \<noteq> WDone)"

definition tasks_live :: "('a, 'b) state \<Rightarrow> int" where
  "tasks_live s =
     (if src s = SrcDone then 0 else 1) + (if sup s = SupDone then 0 else 1) +
     (if snk s = SnkDone then 0 else 1) + int (length (filter live (workers s)))"

text \<open>
  The accounting invariant: both WaitGroup counters equal the number of tasks they wait
  for, each channel has been closed once exactly when its closing task is done, the loop
  counter of FanOut's task is the number of workers spawned so far, which never exceeds
  \<open>workerCount\<close>, and FanOut's task is done only when the loop has ended and no worker is
  live.
\<close>

definition wg_inv :: "('a, 'b) config \<Rightarrow> ('a, 'b) state \<Rightarrow> bool" where
  "wg_inv cfg s =
     (pwg s = tasks_live s \<and>
      fwg s = int (length (filter live (workers s))) \<and>
      closes1 s = (if src s = SrcDone then 1 else 0) \<and>
      closes2 s = (if sup s = SupDone then 1 else 0) \<and>
      (workers s = [] \<or> int (length (workers s)) \<le> workerCount cfg) \<and>
      (\<forall>i. sup s = SupLoop i \<longrightarrow> i = int (length (workers s))) \<and>
      (sup s = SupDone \<longrightarrow>
         \<not> int (length (workers s)) < workerCount cfg \<and> filter live (workers s) = []))"

text \<open>
  With no worker ever spawned nothing passes through the stage: no worker exists, nothing
  was received from Source's channel and nothing reached the consumer.
\<close>

definition empty_inv :: "('a, 'b) state \<Rightarrow> bool" where
  "empty_inv s = (workers s = [] \<and> hist1 s = [] \<and> sunk s = [])"

text \<open>
  What a worker holds: the item it received, as the transform will map it, or the result
  it is about to send. The flow invariant: the items handed over on Source's channel are
  a prefix of what the generator emits (all of it that was emitted so far, while the
  generator runs), and the results Sink has consumed together with what the workers hold
  are, as a multiset, among the transforms of the items handed over.
\<close>

fun held :: "('a \<Rightarrow> err + 'b) \<Rightarrow> ('a, 'b) worker \<Rightarrow> (err + 'b) multiset" where
  "held f WRecv = {#}"
| "held f WWait = {#}"
| "held f (WProc x) = {#f x#}"
| "held f (WSend r) = {#Inr r#}"
| "held f WDone = {#}"

definition flow_inv :: "('a, 'b) config \<Rightarrow> ('a, 'b) state \<Rightarrow> bool" where
  "flow_inv cfg s =
     ((\<forall>ops. src s = SrcRun ops \<longrightarrow> emits (gen cfg) = hist1 s @ emits ops) \<and>
      (\<forall>x ops. src s = SrcBlocked x ops \<longrightarrow> emits (gen cfg) = hist1 s @ x # emits ops) \<and>
      prefix (hist1 s) (emits (gen cfg)) \<and>
      mset (map Inr (sunk s)) + sum_list (map (held (transform cfg)) (workers s))
        \<subseteq># mset (map (transform cfg) (hist1 s)))"



text \<open>FanOut is quiet: its loop has ended and no worker is live.\<close>

definition fan_quiet :: "('a, 'b) config \<Rightarrow> ('a, 'b) state \<Rightarrow> bool" where
  "fan_quiet cfg s =
     (filter live (workers s) = [] \<and> (case sup s of SupLoop i \<Rightarrow> \<not> i < workerCount cfg | SupDone \<Rightarrow> True))"

section \<open>Concrete runs\<close>

text \<open>
  The driver's generator over two regular files, one worker, and a transform that fails
  on the first file (as \<^verbatim>\<open>os.Open\<close> does on an unreadable file). In the run, the
  generator passes its cancellation check for the second file before the worker has
  reported the error, and then blocks in its send.
\<close>

definition open_fails_cfg :: "(nat, nat) config" where
  "open_fails_cfg =
     \<lparr>gen = walk_ops [Regular 1, Regular 2], workerCount = 1,
      transform = (\<lambda>x. if x = 1 then Inl (Failure ''open'') else Inr (x * x))\<rparr>"

definition open_fails_run :: "label list" where
  "open_fails_run =
     [Spawn, SrcStep, SrcStep, SrcSend 0, SrcStep, WorkerProc 0, SupClose, SnkClosed, SrcStep]"

definition open_fails_end :: "(nat, nat) state" where
  "open_fails_end =
     \<lparr>ctx = \<lparr>ctx_err = Some Canceled, ctx_cause = Some (Failure ''open'')\<rparr>,
      pwg = 1, fwg = 0, src = SrcBlocked 2 [], sup = SupDone, workers = [WDone],
      snk = SnkDone, closes1 = 0, closes2 = 1, hist1 = [1], sunk = []\<rparr>"

text \<open>
  The same generator, two workers and an error-free transform, with \<^verbatim>\<open>p.Stop(nil)\<close>
  called from outside while the first item is being processed.
\<close>

definition stop_midstream_cfg :: "(nat, nat) config" where
  "stop_midstream_cfg =
     \<lparr>gen = walk_ops [Regular 1, Regular 2], workerCount = 2,
      transform = (\<lambda>x. Inr (x * x))\<rparr>"

definition stop_midstream_run :: "label list" where
  "stop_midstream_run =
     [Spawn, Spawn, SrcStep, SrcStep, SrcSend 0, SrcStep, WorkerWait 1, ExtStop None,
      WorkerCancel 1, WorkerProc 0, WorkerCancel 0, SupClose, SnkCancel, SrcStep]"

definition stop_midstream_end :: "(nat, nat) state" where
  "stop_midstream_end =
     \<lparr>ctx = \<lparr>ctx_err = Some Canceled, ctx_cause = Some Canceled\<rparr>,
      pwg = 1, fwg = 0, src = SrcBlocked 2 [], sup = SupDone, workers = [WDone, WDone],
      snk = SnkDone, closes1 = 0, closes2 = 1, hist1 = [1], sunk = []\<rparr>"

text \<open>
  A run that completes without cancellation: one item, one worker, squaring.
\<close>

definition one_item_cfg :: "(nat, nat) config" where
  "one_item_cfg = \<lparr>gen = [Emit 3], workerCount = 1, transform = (\<lambda>x. Inr (x * x))\<rparr>"

definition one_item_run :: "label list" where
  "one_item_run =
     [Spawn, WorkerWait 0, SrcSend 0, WorkerProc 0, SrcStep, SrcClose, WorkerSend 0,
      WorkerClosed 0, SupClose, SnkClosed]"

text \<open>A pipeline whose FanOut stage is given \<open>workerCount = 0\<close>.\<close>

definition no_workers_cfg :: "(nat, nat) config" where
  "no_workers_cfg = \<lparr>gen = [Emit 3], workerCount = 0, transform = (\<lambda>x. Inr (x * x))\<rparr>"

text \<open>
  Two items and two workers: the second worker delivers its result before the first.
\<close>

definition two_workers_cfg :: "(nat, nat) config" where
  "two_workers_cfg = \<lparr>gen = [Emit 1, Emit 2], workerCount = 2, transform = (\<lambda>x. Inr (x * x))\<rparr>"

definition two_workers_run :: "label list" where
  "two_workers_run =
     [Spawn, Spawn, WorkerWait 0, WorkerWait 1, SrcSend 0, SrcSend 1, WorkerProc 1,
      WorkerSend 1, WorkerProc 0, WorkerSend 0]"



text \<open>
  A state in the middle of \<open>stop_midstream_run\<close>: cancellation has been induced while
  the first worker was processing the first item; that worker is now at its send with
  the result 1, Sink is at its receive, the second worker is blocked in its receive, and
  the generator is about to send the second item.
\<close>

definition midstream_state :: "(nat, nat) state" where
  "midstream_state =
     \<lparr>ctx = \<lparr>ctx_err = Some Canceled, ctx_cause = Some Canceled\<rparr>,
      pwg = 5, fwg = 2, src = SrcRun [Emit 2], sup = SupLoop 2, workers = [WSend 1, WWait],
      snk = SnkRecv, closes1 = 0, closes2 = 0, hist1 = [1], sunk = []\<rparr>"

text \<open>
  A state in the middle of \<open>open_fails_run\<close>: the worker holds the first file, the generator
  has passed its check for the second.
\<close>

definition open_fails_mid :: "(nat, nat) state" where
  "open_fails_mid =
     \<lparr>ctx = Background, pwg = 4, fwg = 1, src = SrcRun [Emit 2], sup = SupLoop 1,
      workers = [WProc 1], snk = SnkRecv, closes1 = 0, closes2 = 0, hist1 = [1], sunk = []\<rparr>"

section \<open>Properties of the controller\<close>

lemma Stop_cancelled: "cancelled (Stop e c)"
  by (simp add: Stop_def cancel_def cancelled_def)

lemma Stop_idem: "cancelled c \<Longrightarrow> Stop e c = c"
  by (simp add: Stop_def cancel_def cancelled_def)

lemma New_ctx_fresh: "ctx_err parent = None \<Longrightarrow> snd (New parent opts) = Background"
  by (simp add: New_def WithCancelCause_def Background_def Let_def)

lemma Cause_Stop_fresh:
  "Cause (Stop a Background) = Some (case a of None \<Rightarrow> Canceled | Some e \<Rightarrow> e)"
  by (simp add: Cause_def Stop_def cancel_def Background_def)

text \<open>
  C2, as stated, at a nil first cause: after \<^verbatim>\<open>Stop(nil)\<close> and then \<^verbatim>\<open>Stop(B)\<close> on a
  fresh pipeline the retrievable cause is not \<^verbatim>\<open>nil\<close> (the first cause passed), it is
  \<^verbatim>\<open>context.Canceled\<close>.
\<close>

theorem Stop_nil_cause_not_retained:
  "Cause (Stop (Some (Failure ''B'')) (Stop None (snd (New Background [])))) \<noteq> None"
  by (simp add: Cause_def Stop_def cancel_def New_def WithCancelCause_def Background_def)

text \<open>
  C2 (amended): Stop is idempotent and the first cause wins. On any scope a second
  \<^verbatim>\<open>Stop\<close> changes neither the cause nor the cancellation state. On a pipeline created
  from a parent scope that is not yet done, \<^verbatim>\<open>Stop(A)\<close> followed by \<^verbatim>\<open>Stop(B)\<close> leaves
  the retrievable cause equal to A when A is a non-nil error, and equal to
  \<^verbatim>\<open>context.Canceled\<close> when A is nil.
\<close>

theorem Stop_first_cause_wins:
  "Stop b (Stop a c) = Stop a c \<and>
   (ctx_err parent = None \<longrightarrow>
      Cause (Stop b (Stop (Some e) (snd (New parent opts)))) = Some e \<and>
      Cause (Stop b (Stop None (snd (New parent opts)))) = Some Canceled)"
  by (simp add: Stop_idem Stop_cancelled New_ctx_fresh Cause_Stop_fresh)

theorem Stop_first_cause_wins_witness:
  "Stop (Some (Failure ''B'')) (Stop (Some (Failure ''A'')) Background)
     = Stop (Some (Failure ''A'')) Background \<and>
   ctx_err Background = None \<and>
   Cause (Stop (Some (Failure ''B'')) (Stop (Some (Failure ''A'')) (snd (New Background []))))
     = Some (Failure ''A'') \<and>
   Cause (Stop (Some (Failure ''B'')) (Stop None (snd (New Background [])))) = Some Canceled"
  using Stop_first_cause_wins [of "Some (Failure ''B'')" "Some (Failure ''A'')" Background
      Background "Failure ''A''" "[]"]
  by (simp add: Background_def)

text \<open>
  X4: \<^verbatim>\<open>New\<close> installs a logger that writes to \<^verbatim>\<open>io.Discard\<close>, with prefix
  \<^verbatim>\<open>[pipeline] \<close> and the standard flags, and then applies the options in order; the
  option \<^verbatim>\<open>WithLogger\<close> replaces the pipeline's logger field by the given logger
  (a \<^verbatim>\<open>nil\<close> logger included), whatever options precede it. The pipeline never
  writes to its logger.
\<close>

theorem New_logger_option:
  "logger (fst (New parent [])) =
     Some \<lparr>log_out = Discard, log_prefix = ''[pipeline] '', log_flags = LstdFlags\<rparr> \<and>
   logger (fst (New parent [WithLogger l])) = l \<and>
   logger (fst (New parent (map WithLogger ls @ [WithLogger l]))) = l"
  by (simp add: New_def WithLogger_def Let_def)

text \<open>
  C10, as stated, on a pipeline whose parent scope is already done with cause X: the
  derived scope is cancelled from the start with the parent's cause, so the first
  \<^verbatim>\<open>Stop(nil)\<close> of the pipeline leaves the retrievable cause X, not \<^verbatim>\<open>context.Canceled\<close>,
  and the driver's test reports a failure.
\<close>

theorem Stop_nil_on_done_parent_keeps_parent_cause:
  "Cause (Stop None (snd (New \<lparr>ctx_err = Some Canceled, ctx_cause = Some (Failure ''X'')\<rparr> [])))
     \<noteq> Some Canceled \<and>
   Cause (Stop None (snd (New \<lparr>ctx_err = Some Canceled, ctx_cause = Some (Failure ''X'')\<rparr> [])))
     = Some (Failure ''X'') \<and>
   main_failed
     (Stop None (snd (New \<lparr>ctx_err = Some Canceled, ctx_cause = Some (Failure ''X'')\<rparr> [])))"
  by (simp add: Cause_def Stop_def cancel_def New_def WithCancelCause_def main_failed_def)

text \<open>
  C10 (amended): on a pipeline created from a parent scope that is not yet done, a first
  \<^verbatim>\<open>Stop(nil)\<close> makes the retrievable cause \<^verbatim>\<open>context.Canceled\<close>, which is not \<^verbatim>\<open>nil\<close>;
  the driver's test, which compares the cause with that sentinel, does not report a
  failure then.
\<close>

theorem Stop_nil_cause_is_Canceled:
  "ctx_err parent = None \<Longrightarrow>
     Cause (Stop None (snd (New parent opts))) = Some Canceled \<and>
     Cause (Stop None (snd (New parent opts))) \<noteq> None \<and>
     \<not> main_failed (Stop None (snd (New parent opts)))"
  by (simp add: New_ctx_fresh Cause_Stop_fresh main_failed_def)

theorem Stop_nil_cause_is_Canceled_witness:
  "ctx_err Background = None \<and>
   Cause (Stop None (snd (New Background []))) = Some Canceled \<and>
   Cause (Stop None (snd (New Background []))) \<noteq> None \<and>
   \<not> main_failed (Stop None (snd (New Background [])))"
  using Stop_nil_cause_is_Canceled [of Background "[]"]
  by (simp add: Background_def)

section \<open>The actions, one by one\<close>

text \<open>What each action requires of the state it is taken in, and the state it gives.\<close>

lemma step_SrcStep:
  "step cfg SrcStep s = Some s' \<Longrightarrow>
   (src s = SrcRun [] \<and> s' = s\<lparr>src := SrcRet\<rparr>) \<or>
   (\<exists>ops. src s = SrcRun (Check # ops) \<and>
      s' = s\<lparr>src := (if cancelled (ctx s) then SrcRet else SrcRun ops)\<rparr>) \<or>
   (\<exists>e ops. src s = SrcRun (Fail e # ops) \<and>
      s' = s\<lparr>ctx := Stop (Some e) (ctx s), src := SrcRet\<rparr>) \<or>
   (\<exists>x ops. src s = SrcRun (Emit x # ops) \<and>
      \<not> (\<not> cancelled (ctx s) \<and> WWait \<in> set (workers s)) \<and>
      s' = s\<lparr>src := SrcBlocked x ops\<rparr>)"
  by (auto split: src_state.splits list.splits gen_op.splits if_splits)

lemma step_SrcSend:
  "step cfg (SrcSend w) s = Some s' \<Longrightarrow>
   \<exists>x ops. w < length (workers s) \<and>
     (workers s ! w = WRecv \<or> workers s ! w = WWait) \<and>
     (src s = SrcRun (Emit x # ops) \<or> src s = SrcBlocked x ops) \<and>
     s' = s\<lparr>src := SrcRun ops, workers := (workers s)[w := WProc x], hist1 := hist1 s @ [x]\<rparr>"
  by (auto split: src_state.splits list.splits gen_op.splits if_splits)

lemma step_SrcSend_guard:
  "step cfg (SrcSend w) s = Some s' \<Longrightarrow>
   workers s ! w = WRecv \<or> (workers s ! w = WWait \<and> \<not> cancelled (ctx s))"
  by (auto split: src_state.splits list.splits gen_op.splits if_splits)

lemma step_WorkerWait:
  "step cfg (WorkerWait w) s = Some s' \<Longrightarrow>
   w < length (workers s) \<and> workers s ! w = WRecv \<and> \<not> cancelled (ctx s) \<and>
   closes1 s = 0 \<and> \<not> src_blocked (src s) \<and> s' = s\<lparr>workers := (workers s)[w := WWait]\<rparr>"
  by (simp split: if_splits)

lemma step_SrcClose:
  "step cfg SrcClose s = Some s' \<Longrightarrow>
   src s = SrcRet \<and> s' = s\<lparr>src := SrcDone, closes1 := closes1 s + 1, pwg := pwg s - 1\<rparr>"
  by (simp split: if_splits)

lemma step_Spawn:
  "step cfg Spawn s = Some s' \<Longrightarrow>
   \<exists>i. sup s = SupLoop i \<and> i < workerCount cfg \<and>
     s' = s\<lparr>sup := SupLoop (i + 1), workers := workers s @ [WRecv],
            fwg := fwg s + 1, pwg := pwg s + 1\<rparr>"
  by (simp split: sup_state.splits if_splits)

lemma step_SupClose:
  "step cfg SupClose s = Some s' \<Longrightarrow>
   \<exists>i. sup s = SupLoop i \<and> \<not> i < workerCount cfg \<and> fwg s = 0 \<and>
     s' = s\<lparr>sup := SupDone, closes2 := closes2 s + 1, pwg := pwg s - 1\<rparr>"
  by (simp split: sup_state.splits if_splits)

lemma step_WorkerClosed:
  "step cfg (WorkerClosed w) s = Some s' \<Longrightarrow>
   w < length (workers s) \<and> (workers s ! w = WRecv \<or> workers s ! w = WWait) \<and>
   0 < closes1 s \<and> s' = worker_return w s"
  by (simp split: if_splits)

lemma step_WorkerCancel:
  "step cfg (WorkerCancel w) s = Some s' \<Longrightarrow>
   w < length (workers s) \<and> cancelled (ctx s) \<and>
   (workers s ! w = WRecv \<or> workers s ! w = WWait \<or> (\<exists>r. workers s ! w = WSend r)) \<and>
   s' = worker_return w s"
  by (simp split: if_splits worker.splits)

lemma step_WorkerProc:
  "step cfg (WorkerProc w) s = Some s' \<Longrightarrow>
   \<exists>x. w < length (workers s) \<and> workers s ! w = WProc x \<and>
     ((\<exists>e. transform cfg x = Inl e \<and> s' = worker_return w (s\<lparr>ctx := Stop (Some e) (ctx s)\<rparr>)) \<or>
      (\<exists>r. transform cfg x = Inr r \<and> s' = s\<lparr>workers := (workers s)[w := WSend r]\<rparr>))"
  by (simp split: if_splits worker.splits sum.splits)

lemma step_WorkerSend:
  "step cfg (WorkerSend w) s = Some s' \<Longrightarrow>
   \<exists>r. w < length (workers s) \<and> snk s = SnkRecv \<and> \<not> cancelled (ctx s) \<and>
     workers s ! w = WSend r \<and>
     s' = s\<lparr>workers := (workers s)[w := WRecv], sunk := sunk s @ [r]\<rparr>"
  by (simp split: if_splits worker.splits)

lemma step_SnkClosed:
  "step cfg SnkClosed s = Some s' \<Longrightarrow>
   snk s = SnkRecv \<and> 0 < closes2 s \<and> s' = s\<lparr>snk := SnkDone, pwg := pwg s - 1\<rparr>"
  by (simp split: if_splits)

lemma step_SnkCancel:
  "step cfg SnkCancel s = Some s' \<Longrightarrow>
   snk s = SnkRecv \<and> cancelled (ctx s) \<and> s' = s\<lparr>snk := SnkDone, pwg := pwg s - 1\<rparr>"
  by (simp split: if_splits)

lemma step_ExtStop:
  "step cfg (ExtStop c) s = Some s' \<Longrightarrow> s' = s\<lparr>ctx := Stop c (ctx s)\<rparr>"
  by simp

section \<open>Runs and blocked states\<close>

lemma exec_append:
  "exec cfg (a @ b) s = (case exec cfg a s of None \<Rightarrow> None | Some s' \<Rightarrow> exec cfg b s')"
  by (induction a arbitrary: s) (auto split: option.splits)

lemma task_labels_complete:
  "step cfg l s = Some s' \<Longrightarrow> (\<exists>c. l = ExtStop c) \<or> l \<in> set (task_labels s)"
  by (cases l) (auto simp: task_labels_def split: if_splits src_state.splits list.splits gen_op.splits)

lemma stuck_step:
  assumes "enabled cfg s = []" "cancelled (ctx s)" "step cfg l s = Some s'"
  shows "s' = s"
proof -
  from task_labels_complete[OF assms(3)] show ?thesis
  proof
    assume "\<exists>c. l = ExtStop c"
    then obtain c where "l = ExtStop c" by blast
    with step_ExtStop [of cfg c s s'] assms(2,3) show ?thesis by (simp add: Stop_idem)
  next
    assume "l \<in> set (task_labels s)"
    with assms(3) have "l \<in> set (enabled cfg s)" by (simp add: enabled_def)
    with assms(1) show ?thesis by simp
  qed
qed

lemma stuck_exec:
  "enabled cfg s = [] \<Longrightarrow> cancelled (ctx s) \<Longrightarrow> exec cfg tr s \<in> {None, Some s}"
proof (induction tr)
  case Nil then show ?case by simp
next
  case (Cons l tr)
  show ?case
  proof (cases "step cfg l s")
    case None then show ?thesis by simp
  next
    case (Some s')
    with Cons.prems have "s' = s" by (simp add: stuck_step)
    with Some Cons show ?thesis by simp
  qed
qed

section \<open>The accounting invariant holds in every run\<close>

lemma filter_update_count:
  "w < length ws \<Longrightarrow>
   length (filter P (ws[w := x])) + (if P (ws ! w) then 1 else 0) =
   length (filter P ws) + (if P x then 1 else 0)"
proof (induction ws arbitrary: w)
  case Nil then show ?case by simp
next
  case (Cons a ws) then show ?case by (cases w) auto
qed

lemma live_update_done:
  "w < length ws \<Longrightarrow> ws ! w \<noteq> WDone \<Longrightarrow>
   int (length (filter live (ws[w := WDone]))) = int (length (filter live ws)) - 1"
  using filter_update_count [of w ws live WDone] by (simp add: live_def)

lemma live_update_live:
  "w < length ws \<Longrightarrow> ws ! w \<noteq> WDone \<Longrightarrow> x \<noteq> WDone \<Longrightarrow>
   length (filter live (ws[w := x])) = length (filter live ws)"
  using filter_update_count [of w ws live x] by (simp add: live_def)

lemma no_live_nth:
  "filter live ws = [] \<Longrightarrow> w < length ws \<Longrightarrow> ws ! w = WDone"
  by (induction ws arbitrary: w) (auto simp: live_def nth_Cons' split: if_splits)

lemma wg_inv_init: "wg_inv cfg (init cfg)"
  by (simp add: wg_inv_def init_def tasks_live_def)

lemma wg_inv_worker_return:
  assumes "wg_inv cfg s" "w < length (workers s)" "workers s ! w \<noteq> WDone"
  shows "wg_inv cfg (worker_return w s)"
proof -
  have "sup s \<noteq> SupDone"
    using assms no_live_nth [of "workers s" w] by (auto simp: wg_inv_def)
  then obtain i where i: "sup s = SupLoop i" by (cases "sup s") auto
  show ?thesis
    using assms i live_update_done [of w "workers s"]
    by (simp add: wg_inv_def tasks_live_def worker_return_def)
qed

lemma wg_inv_ctx: "wg_inv cfg (s\<lparr>ctx := c\<rparr>) = wg_inv cfg s"
  by (simp add: wg_inv_def tasks_live_def)

lemma wg_inv_worker_move:
  assumes "wg_inv cfg s" "w < length (workers s)" "workers s ! w \<noteq> WDone" "x \<noteq> WDone"
  shows "wg_inv cfg (s\<lparr>workers := (workers s)[w := x]\<rparr>)"
proof -
  have "sup s \<noteq> SupDone"
    using assms no_live_nth [of "workers s" w] by (auto simp: wg_inv_def)
  then show ?thesis
    using assms live_update_live [of w "workers s" x]
    by (simp add: wg_inv_def tasks_live_def)
qed

lemma wg_inv_src_move:
  "wg_inv cfg s \<Longrightarrow> src s \<noteq> SrcDone \<Longrightarrow> x \<noteq> SrcDone \<Longrightarrow> wg_inv cfg (s\<lparr>src := x\<rparr>)"
  by (simp add: wg_inv_def tasks_live_def)

lemma wg_inv_hist1: "wg_inv cfg (s\<lparr>hist1 := h\<rparr>) = wg_inv cfg s"
  by (simp add: wg_inv_def tasks_live_def)

lemma wg_inv_sunk: "wg_inv cfg (s\<lparr>sunk := h\<rparr>) = wg_inv cfg s"
  by (simp add: wg_inv_def tasks_live_def)

lemma wg_inv_SrcClose:
  "wg_inv cfg s \<Longrightarrow> src s = SrcRet \<Longrightarrow>
   wg_inv cfg (s\<lparr>src := SrcDone, closes1 := closes1 s + 1, pwg := pwg s - 1\<rparr>)"
  by (simp add: wg_inv_def tasks_live_def)

lemma wg_inv_Spawn:
  "wg_inv cfg s \<Longrightarrow> sup s = SupLoop i \<Longrightarrow> i < workerCount cfg \<Longrightarrow>
   wg_inv cfg (s\<lparr>sup := SupLoop (i + 1), workers := workers s @ [WRecv],
                  fwg := fwg s + 1, pwg := pwg s + 1\<rparr>)"
  by (simp add: wg_inv_def tasks_live_def live_def)

lemma wg_inv_SupClose:
  "wg_inv cfg s \<Longrightarrow> sup s = SupLoop i \<Longrightarrow> \<not> i < workerCount cfg \<Longrightarrow> fwg s = 0 \<Longrightarrow>
   wg_inv cfg (s\<lparr>sup := SupDone, closes2 := closes2 s + 1, pwg := pwg s - 1\<rparr>)"
  by (simp add: wg_inv_def tasks_live_def)

lemma wg_inv_snk_done:
  "wg_inv cfg s \<Longrightarrow> snk s = SnkRecv \<Longrightarrow> wg_inv cfg (s\<lparr>snk := SnkDone, pwg := pwg s - 1\<rparr>)"
  by (simp add: wg_inv_def tasks_live_def)

lemma wg_inv_step:
  assumes inv: "wg_inv cfg s" and st: "step cfg l s = Some s'"
  shows "wg_inv cfg s'"
proof (cases l)
  case SrcStep
  from step_SrcStep [OF st [unfolded SrcStep]] show ?thesis
  proof (elim disjE exE conjE)
    assume "src s = SrcRun []" "s' = s\<lparr>src := SrcRet\<rparr>"
    then show ?thesis using inv by (simp add: wg_inv_src_move)
  next
    fix ops assume "src s = SrcRun (Check # ops)"
      "s' = s\<lparr>src := if cancelled (ctx s) then SrcRet else SrcRun ops\<rparr>"
    then show ?thesis using inv by (simp add: wg_inv_src_move)
  next
    fix e ops assume h: "src s = SrcRun (Fail e # ops)"
      "s' = s\<lparr>ctx := Stop (Some e) (ctx s), src := SrcRet\<rparr>"
    have "wg_inv cfg ((s\<lparr>ctx := Stop (Some e) (ctx s)\<rparr>)\<lparr>src := SrcRet\<rparr>)"
      using inv h(1) by (intro wg_inv_src_move) (simp_all add: wg_inv_ctx)
    then show ?thesis using h(2) by simp
  next
    fix x ops assume "src s = SrcRun (Emit x # ops)" "s' = s\<lparr>src := SrcBlocked x ops\<rparr>"
    then show ?thesis using inv by (simp add: wg_inv_src_move)
  qed
next
  case (SrcSend w)
  from step_SrcSend [OF st [unfolded SrcSend]]
  obtain x ops where h: "src s \<noteq> SrcDone" "w < length (workers s)"
    "workers s ! w \<noteq> WDone"
    "s' = s\<lparr>src := SrcRun ops, workers := (workers s)[w := WProc x], hist1 := hist1 s @ [x]\<rparr>"
    by auto
  let ?s1 = "s\<lparr>src := SrcRun ops\<rparr>"
  have "wg_inv cfg ?s1"
    using inv h(1) by (intro wg_inv_src_move) simp_all
  then have "wg_inv cfg (?s1\<lparr>workers := (workers ?s1)[w := WProc x]\<rparr>)"
    using h by (intro wg_inv_worker_move) auto
  then have "wg_inv cfg ((?s1\<lparr>workers := (workers ?s1)[w := WProc x]\<rparr>)
      \<lparr>hist1 := hist1 s @ [x]\<rparr>)"
    by (simp only: wg_inv_hist1)
  then show ?thesis using h(4) by simp
next
  case (WorkerWait w)
  from step_WorkerWait [OF st [unfolded WorkerWait]]
  have "w < length (workers s)" "workers s ! w \<noteq> WDone"
    "s' = s\<lparr>workers := (workers s)[w := WWait]\<rparr>"
    by auto
  then show ?thesis using inv by (simp add: wg_inv_worker_move)
next
  case SrcClose
  from step_SrcClose [OF st [unfolded SrcClose]] show ?thesis
    using inv wg_inv_SrcClose [of cfg s] by (elim conjE) simp
next
  case Spawn
  with st obtain i where "sup s = SupLoop i" "i < workerCount cfg"
     "s' = s\<lparr>sup := SupLoop (i + 1), workers := workers s @ [WRecv],
            fwg := fwg s + 1, pwg := pwg s + 1\<rparr>"
    using step_Spawn by blast
  then show ?thesis using inv by (simp add: wg_inv_Spawn)
next
  case SupClose
  with st obtain i where "sup s = SupLoop i" "\<not> i < workerCount cfg" "fwg s = 0"
     "s' = s\<lparr>sup := SupDone, closes2 := closes2 s + 1, pwg := pwg s - 1\<rparr>"
    using step_SupClose by blast
  then show ?thesis using inv wg_inv_SupClose [of cfg s i] by simp
next
  case (WorkerClosed w)
  from step_WorkerClosed [OF st [unfolded WorkerClosed]]
  have "w < length (workers s)" "workers s ! w \<noteq> WDone" "s' = worker_return w s"
    by auto
  then show ?thesis using inv by (simp add: wg_inv_worker_return)
next
  case (WorkerCancel w)
  from step_WorkerCancel [OF st [unfolded WorkerCancel]]
  have "w < length (workers s)" "workers s ! w \<noteq> WDone" "s' = worker_return w s"
    by auto
  then show ?thesis using inv by (simp add: wg_inv_worker_return)
next
  case (WorkerProc w)
  with st obtain x where h: "w < length (workers s)" "workers s ! w = WProc x"
    "(\<exists>e. transform cfg x = Inl e \<and> s' = worker_return w (s\<lparr>ctx := Stop (Some e) (ctx s)\<rparr>)) \<or>
      (\<exists>r. transform cfg x = Inr r \<and> s' = s\<lparr>workers := (workers s)[w := WSend r]\<rparr>)"
    using step_WorkerProc by blast
  from h(3) show ?thesis
  proof (elim disjE exE conjE)
    fix e assume "s' = worker_return w (s\<lparr>ctx := Stop (Some e) (ctx s)\<rparr>)"
    then show ?thesis
      using inv h(1,2) wg_inv_worker_return [of cfg "s\<lparr>ctx := Stop (Some e) (ctx s)\<rparr>" w]
      by (simp add: wg_inv_ctx)
  next
    fix r assume "s' = s\<lparr>workers := (workers s)[w := WSend r]\<rparr>"
    then show ?thesis
      using inv h(1,2) by (simp add: wg_inv_worker_move)
  qed
next
  case (WorkerSend w)
  with st obtain r where h: "w < length (workers s)" "workers s ! w = WSend r"
    "s' = s\<lparr>workers := (workers s)[w := WRecv], sunk := sunk s @ [r]\<rparr>"
    using step_WorkerSend by blast
  have "wg_inv cfg (s\<lparr>workers := (workers s)[w := WRecv]\<rparr>)"
    using inv h by (intro wg_inv_worker_move) auto
  then have "wg_inv cfg ((s\<lparr>workers := (workers s)[w := WRecv]\<rparr>)\<lparr>sunk := sunk s @ [r]\<rparr>)"
    by (simp only: wg_inv_sunk)
  then show ?thesis using h(3) by simp
next
  case SnkClosed
  from step_SnkClosed [OF st [unfolded SnkClosed]] show ?thesis
    using inv by (elim conjE) (simp add: wg_inv_snk_done)
next
  case SnkCancel
  from step_SnkCancel [OF st [unfolded SnkCancel]] show ?thesis
    using inv by (elim conjE) (simp add: wg_inv_snk_done)
next
  case (ExtStop c)
  from step_ExtStop [OF st [unfolded ExtStop]] show ?thesis
    using inv by (simp add: wg_inv_ctx)
qed

lemma exec_invariant:
  assumes "\<And>l s s'. P s \<Longrightarrow> step cfg l s = Some s' \<Longrightarrow> P s'"
  shows "P s \<Longrightarrow> exec cfg tr s = Some s' \<Longrightarrow> P s'"
proof (induction tr arbitrary: s)
  case Nil then show ?case by simp
next
  case (Cons l tr)
  then show ?case using assms by (auto split: option.splits)
qed

lemma wg_inv_exec: "exec cfg tr (init cfg) = Some s \<Longrightarrow> wg_inv cfg s"
  by (rule exec_invariant [where P = "wg_inv cfg", OF wg_inv_step wg_inv_init])

section \<open>Termination of Wait\<close>

lemma stop_midstream_exec:
  "exec stop_midstream_cfg stop_midstream_run (init stop_midstream_cfg) = Some stop_midstream_end"
  by (simp add: stop_midstream_cfg_def stop_midstream_run_def stop_midstream_end_def init_def
      New_def WithCancelCause_def Background_def cancelled_def Stop_def cancel_def
      worker_return_def)

lemma stop_midstream_stuck: "enabled stop_midstream_cfg stop_midstream_end = []"
  by (simp add: enabled_def task_labels_def stop_midstream_cfg_def stop_midstream_end_def
      cancelled_def upt_rec)

text \<open>
  C1 (the code does not do this): \<^verbatim>\<open>Wait\<close> need not return under induced cancellation.
  In the run \<open>stop_midstream_run\<close> the generator has passed its \<^verbatim>\<open>ctx.Err()\<close> check when
  \<^verbatim>\<open>Stop\<close> is called; both workers, FanOut's task and Sink return on cancellation, and
  the generator is left in its plain send with no receiver. No task can take a step in
  the state reached, the pipeline's counter is 1, and every continuation of the run stays
  in that state: \<^verbatim>\<open>Wait\<close> never returns.
\<close>

theorem cancellation_leaves_Source_blocked:
  "exec stop_midstream_cfg stop_midstream_run (init stop_midstream_cfg)
     = Some stop_midstream_end \<and>
   enabled stop_midstream_cfg stop_midstream_end = [] \<and>
   \<not> Wait_returns stop_midstream_end \<and>
   (\<forall>tr. exec stop_midstream_cfg (stop_midstream_run @ tr) (init stop_midstream_cfg)
       \<in> {None, Some stop_midstream_end})"
proof -
  have c: "cancelled (ctx stop_midstream_end)"
    by (simp add: stop_midstream_end_def cancelled_def)
  have "exec stop_midstream_cfg (stop_midstream_run @ tr) (init stop_midstream_cfg)
       \<in> {None, Some stop_midstream_end}" for tr
    using stuck_exec [OF stop_midstream_stuck c, of tr]
    by (simp add: exec_append stop_midstream_exec)
  moreover have "\<not> Wait_returns stop_midstream_end"
    by (simp add: stop_midstream_end_def Wait_returns_def)
  ultimately show ?thesis
    using stop_midstream_exec stop_midstream_stuck by blast
qed

lemma open_fails_exec:
  "exec open_fails_cfg open_fails_run (init open_fails_cfg) = Some open_fails_end"
  by (simp add: open_fails_cfg_def open_fails_run_def open_fails_end_def init_def New_def
      WithCancelCause_def Background_def cancelled_def Stop_def cancel_def worker_return_def)

lemma open_fails_stuck: "enabled open_fails_cfg open_fails_end = []"
  by (simp add: enabled_def task_labels_def open_fails_cfg_def open_fails_end_def cancelled_def)

text \<open>
  C3 (the code does not do this): after a transform error \<^verbatim>\<open>Wait\<close> need not return.
  In the run \<open>open_fails_run\<close> the single worker's transform fails on the first item; the
  cause is that error, but the generator, which had passed its \<^verbatim>\<open>ctx.Err()\<close> check
  before the worker called \<^verbatim>\<open>Stop\<close>, is left in its plain send with no receiver. No
  task can take a step in the state reached, the pipeline's counter is 1, and every
  continuation of the run stays in that state.
\<close>

theorem transform_error_leaves_Source_blocked:
  "exec open_fails_cfg open_fails_run (init open_fails_cfg) = Some open_fails_end \<and>
   Cause (ctx open_fails_end) = Some (Failure ''open'') \<and>
   enabled open_fails_cfg open_fails_end = [] \<and>
   \<not> Wait_returns open_fails_end \<and>
   (\<forall>tr. exec open_fails_cfg (open_fails_run @ tr) (init open_fails_cfg)
       \<in> {None, Some open_fails_end})"
proof -
  have c: "cancelled (ctx open_fails_end)"
    by (simp add: open_fails_end_def cancelled_def)
  have "exec open_fails_cfg (open_fails_run @ tr) (init open_fails_cfg)
       \<in> {None, Some open_fails_end}" for tr
    using stuck_exec [OF open_fails_stuck c, of tr]
    by (simp add: exec_append open_fails_exec)
  moreover have "Cause (ctx open_fails_end) = Some (Failure ''open'')"
    by (simp add: open_fails_end_def Cause_def)
  moreover have "\<not> Wait_returns open_fails_end"
    by (simp add: open_fails_end_def Wait_returns_def)
  ultimately show ?thesis
    using open_fails_exec open_fails_stuck by blast
qed

section \<open>Closing of the channels\<close>

lemma worker_return_simps [simp]:
  "workers (worker_return w s) = (workers s)[w := WDone]"
  "hist1 (worker_return w s) = hist1 s"
  "sunk (worker_return w s) = sunk s"
  "ctx (worker_return w s) = ctx s"
  "src (worker_return w s) = src s"
  "sup (worker_return w s) = sup s"
  "snk (worker_return w s) = snk s"
  "closes1 (worker_return w s) = closes1 s"
  "closes2 (worker_return w s) = closes2 s"
  by (simp_all add: worker_return_def)

lemma all_done_iff: "filter live ws = [] \<longleftrightarrow> (\<forall>w \<in> set ws. w = WDone)"
  by (auto simp: filter_empty_conv live_def)

lemma one_item_exec:
  "exec one_item_cfg one_item_run (init one_item_cfg) =
     Some \<lparr>ctx = Background, pwg = 0, fwg = 0, src = SrcDone, sup = SupDone,
           workers = [WDone], snk = SnkDone, closes1 = 1, closes2 = 1,
           hist1 = [3], sunk = [9]\<rparr>"
  by (simp add: one_item_cfg_def one_item_run_def init_def New_def
      WithCancelCause_def Background_def cancelled_def worker_return_def)

text \<open>
  C4: in every run (so in every run that completes without cancellation) each stage
  channel is closed at most once, and exactly once when \<^verbatim>\<open>Wait\<close> returns. Source's channel
  is closed only when Source's task, which runs the generator and is the channel's only
  writer, is done; this holds whatever the generator does, also when it fails or returns
  early. FanOut's channel is closed only when the supervising task is done, all
  \<open>workerCount\<close> workers have been spawned and every one of them has returned.
\<close>

theorem channels_closed_once:
  assumes "exec cfg tr (init cfg) = Some s"
  shows "closes1 s \<le> 1 \<and> closes2 s \<le> 1 \<and>
         (0 < closes1 s \<longrightarrow> src s = SrcDone) \<and>
         (0 < closes2 s \<longrightarrow>
            sup s = SupDone \<and> int (length (workers s)) = max 0 (workerCount cfg) \<and>
            (\<forall>w \<in> set (workers s). w = WDone)) \<and>
         (Wait_returns s \<longrightarrow> closes1 s = 1 \<and> closes2 s = 1)"
proof -
  have inv: "wg_inv cfg s" using assms by (rule wg_inv_exec)
  have 1: "closes1 s \<le> 1 \<and> closes2 s \<le> 1" using inv by (simp add: wg_inv_def)
  have 2: "0 < closes1 s \<longrightarrow> src s = SrcDone"
    using inv by (simp add: wg_inv_def split: if_splits)
  have 3: "sup s = SupDone \<and> int (length (workers s)) = max 0 (workerCount cfg) \<and>
      (\<forall>w \<in> set (workers s). w = WDone)" if "0 < closes2 s"
  proof -
    from that inv have d: "sup s = SupDone" by (simp add: wg_inv_def split: if_splits)
    with inv have "\<not> int (length (workers s)) < workerCount cfg"
      "filter live (workers s) = []"
      "workers s = [] \<or> int (length (workers s)) \<le> workerCount cfg"
      by (simp_all add: wg_inv_def)
    then show ?thesis using d by (auto simp: all_done_iff)
  qed
  have 4: "closes1 s = 1 \<and> closes2 s = 1" if "Wait_returns s"
  proof -
    have "0 \<le> int (length (filter live (workers s)))" by simp
    with that inv show ?thesis
      by (simp add: wg_inv_def Wait_returns_def tasks_live_def split: if_splits)
  qed
  from 1 2 3 4 show ?thesis by blast
qed

theorem channels_closed_once_witness:
  "exec one_item_cfg one_item_run (init one_item_cfg) =
     Some \<lparr>ctx = Background, pwg = 0, fwg = 0, src = SrcDone, sup = SupDone,
           workers = [WDone], snk = SnkDone, closes1 = 1, closes2 = 1,
           hist1 = [3], sunk = [9]\<rparr> \<and>
   \<not> cancelled Background \<and>
   Wait_returns \<lparr>ctx = Background, pwg = 0, fwg = 0, src = SrcDone, sup = SupDone,
           workers = [WDone], snk = SnkDone, closes1 = 1, closes2 = 1,
           hist1 = [3::nat], sunk = [9::nat]\<rparr> \<and>
   int (length [WDone :: (nat, nat) worker]) = max 0 (workerCount one_item_cfg)"
  using channels_closed_once [OF one_item_exec] one_item_exec
  by (simp add: Wait_returns_def Background_def cancelled_def one_item_cfg_def)

section \<open>FanOut without workers\<close>

lemma empty_inv_step:
  assumes wc: "workerCount cfg \<le> 0" and inv: "wg_inv cfg s" and e: "empty_inv s"
    and st: "step cfg l s = Some s'"
  shows "empty_inv s'"
proof (cases l)
  case SrcStep
  from step_SrcStep [OF st [unfolded SrcStep]] e show ?thesis
    by (auto simp: empty_inv_def)
next
  case (SrcSend w)
  from step_SrcSend [OF st [unfolded SrcSend]] e show ?thesis
    by (auto simp: empty_inv_def)
next
  case SrcClose
  from step_SrcClose [OF st [unfolded SrcClose]] e show ?thesis
    by (auto simp: empty_inv_def)
next
  case Spawn
  from step_Spawn [OF st [unfolded Spawn]] obtain i where "sup s = SupLoop i" "i < workerCount cfg"
    by blast
  with inv e wc show ?thesis by (simp add: wg_inv_def empty_inv_def)
next
  case SupClose
  from step_SupClose [OF st [unfolded SupClose]] e show ?thesis
    by (auto simp: empty_inv_def)
next
  case (WorkerWait w)
  from step_WorkerWait [OF st [unfolded WorkerWait]] e show ?thesis
    by (auto simp: empty_inv_def)
next
  case (WorkerClosed w)
  from step_WorkerClosed [OF st [unfolded WorkerClosed]] e show ?thesis
    by (auto simp: empty_inv_def)
next
  case (WorkerCancel w)
  from step_WorkerCancel [OF st [unfolded WorkerCancel]] e show ?thesis
    by (auto simp: empty_inv_def)
next
  case (WorkerProc w)
  from step_WorkerProc [OF st [unfolded WorkerProc]] e show ?thesis
    by (auto simp: empty_inv_def)
next
  case (WorkerSend w)
  from step_WorkerSend [OF st [unfolded WorkerSend]] e show ?thesis
    by (auto simp: empty_inv_def)
next
  case SnkClosed
  from step_SnkClosed [OF st [unfolded SnkClosed]] e show ?thesis
    by (auto simp: empty_inv_def)
next
  case SnkCancel
  from step_SnkCancel [OF st [unfolded SnkCancel]] e show ?thesis
    by (auto simp: empty_inv_def)
next
  case (ExtStop c)
  from step_ExtStop [OF st [unfolded ExtStop]] e show ?thesis
    by (auto simp: empty_inv_def)
qed

lemma empty_inv_exec:
  assumes wc: "workerCount cfg \<le> 0" and ex: "exec cfg tr (init cfg) = Some s"
  shows "wg_inv cfg s \<and> empty_inv s"
proof (rule exec_invariant [where P = "\<lambda>s. wg_inv cfg s \<and> empty_inv s", OF _ _ ex])
  show "wg_inv cfg (init cfg) \<and> empty_inv (init cfg)"
    by (simp add: wg_inv_init) (simp add: empty_inv_def init_def)
next
  fix l s s'
  assume "wg_inv cfg s \<and> empty_inv s" "step cfg l s = Some s'"
  then show "wg_inv cfg s' \<and> empty_inv s'"
    using wg_inv_step empty_inv_step [OF wc] by blast
qed

text \<open>
  C9: FanOut does not validate \<open>workerCount\<close>. When it is zero or negative, in every run
  no worker is ever registered (\<^verbatim>\<open>Spawn\<close> is never enabled, both the worker list and
  FanOut's WaitGroup stay empty), no item is ever received from the input channel (no
  send of Source can complete), Sink's consumer is never called, and the supervising
  task can close the output channel at once: the close is enabled in the initial state
  and stays enabled until it is taken, after which Sink's receive reports the channel
  closed.
\<close>

theorem FanOut_no_workers:
  assumes wc: "workerCount cfg \<le> 0" and ex: "exec cfg tr (init cfg) = Some s"
  shows "workers s = [] \<and> fwg s = 0 \<and> hist1 s = [] \<and> sunk s = [] \<and>
         step cfg Spawn s = None \<and> (\<forall>w. step cfg (SrcSend w) s = None) \<and>
         (sup s \<noteq> SupDone \<longrightarrow>
            step cfg SupClose s =
              Some (s\<lparr>sup := SupDone, closes2 := closes2 s + 1, pwg := pwg s - 1\<rparr>)) \<and>
         closes2 s = (if sup s = SupDone then 1 else 0) \<and>
         (sup s = SupDone \<and> snk s = SnkRecv \<longrightarrow>
            step cfg SnkClosed s = Some (s\<lparr>snk := SnkDone, pwg := pwg s - 1\<rparr>)) \<and>
         step cfg SupClose (init cfg) = Some ((init cfg)\<lparr>sup := SupDone, closes2 := 1, pwg := 2\<rparr>)"
proof -
  from empty_inv_exec [OF wc ex] have inv: "wg_inv cfg s" and e: "empty_inv s" by blast+
  from e have w: "workers s = []" "hist1 s = []" "sunk s = []" by (simp_all add: empty_inv_def)
  from inv w have f: "fwg s = 0" by (simp add: wg_inv_def)
  from inv w have i: "sup s = SupLoop i \<Longrightarrow> i = 0" for i by (simp add: wg_inv_def)
  have sp: "step cfg Spawn s = None"
    using i wc by (auto split: sup_state.splits)
  have ss: "step cfg (SrcSend w) s = None" for w
    using w by (simp split: src_state.splits list.splits gen_op.splits)
  have sc: "step cfg SupClose s =
      Some (s\<lparr>sup := SupDone, closes2 := closes2 s + 1, pwg := pwg s - 1\<rparr>)" if "sup s \<noteq> SupDone"
    using that i f wc by (cases "sup s") auto
  have c2: "closes2 s = (if sup s = SupDone then 1 else 0)"
    using inv by (simp add: wg_inv_def)
  have i0: "step cfg SupClose (init cfg) = Some ((init cfg)\<lparr>sup := SupDone, closes2 := 1, pwg := 2\<rparr>)"
    using wc by (simp add: init_def)
  have sk: "step cfg SnkClosed s = Some (s\<lparr>snk := SnkDone, pwg := pwg s - 1\<rparr>)"
    if "sup s = SupDone \<and> snk s = SnkRecv"
    using that c2 by simp
  from w f sp ss sc c2 sk i0 show ?thesis by blast
qed

theorem FanOut_no_workers_witness:
  "workerCount no_workers_cfg \<le> 0 \<and>
   exec no_workers_cfg [SupClose, SnkClosed] (init no_workers_cfg) =
     Some \<lparr>ctx = Background, pwg = 1, fwg = 0, src = SrcRun [Emit 3], sup = SupDone,
           workers = [], snk = SnkDone, closes1 = 0, closes2 = 1, hist1 = [], sunk = []\<rparr> \<and>
   step no_workers_cfg (SrcSend 0)
     \<lparr>ctx = Background, pwg = 1, fwg = 0, src = SrcRun [Emit 3], sup = SupDone,
      workers = [], snk = SnkDone, closes1 = 0, closes2 = 1, hist1 = [], sunk = []\<rparr> = None"
proof -
  have wc: "workerCount no_workers_cfg \<le> 0" by (simp add: no_workers_cfg_def)
  have ex: "exec no_workers_cfg [SupClose, SnkClosed] (init no_workers_cfg) =
     Some \<lparr>ctx = Background, pwg = 1, fwg = 0, src = SrcRun [Emit 3], sup = SupDone,
           workers = [], snk = SnkDone, closes1 = 0, closes2 = 1, hist1 = [], sunk = []\<rparr>"
    by (simp add: no_workers_cfg_def init_def New_def WithCancelCause_def Background_def)
  from FanOut_no_workers [OF wc ex] wc ex show ?thesis by blast
qed

section \<open>What Sink observes\<close>

lemma held_update:
  "w < length ws \<Longrightarrow>
   sum_list (map (held f) (ws[w := x])) + held f (ws ! w) = sum_list (map (held f) ws) + held f x"
proof (induction ws arbitrary: w)
  case Nil then show ?case by simp
next
  case (Cons a ws) then show ?case by (cases w) (simp_all add: ac_simps)
qed

lemma held_drop:
  assumes "w < length ws" "held f x = {#}"
  shows "sum_list (map (held f) (ws[w := x])) \<subseteq># sum_list (map (held f) ws)"
proof -
  from held_update [OF assms(1), of f x] assms(2)
  have "sum_list (map (held f) ws) = sum_list (map (held f) (ws[w := x])) + held f (ws ! w)"
    by simp
  then show ?thesis by (metis mset_subset_eq_add_left)
qed

lemma held_same:
  assumes "w < length ws" "held f x = held f (ws ! w)"
  shows "sum_list (map (held f) (ws[w := x])) = sum_list (map (held f) ws)"
  using held_update [OF assms(1), of f x] assms(2) by simp

lemma held_gain:
  assumes "w < length ws" "held f (ws ! w) = {#}"
  shows "sum_list (map (held f) (ws[w := x])) = sum_list (map (held f) ws) + held f x"
  using held_update [OF assms(1), of f x] assms(2) by simp

lemma held_lose:
  assumes "w < length ws" "held f x = {#}"
  shows "sum_list (map (held f) (ws[w := x])) + held f (ws ! w) = sum_list (map (held f) ws)"
  using held_update [OF assms(1), of f x] assms(2) by simp

lemma flow_inv_init: "flow_inv cfg (init cfg)"
  by (simp add: flow_inv_def init_def)

lemma mset_add_subset_trans:
  "X \<subseteq># Y \<Longrightarrow> A + Y \<subseteq># H \<Longrightarrow> A + X \<subseteq># (H :: 'c multiset)"
  by (meson subset_mset.add_left_mono subset_mset.order_trans)

lemma flow_inv_ctx: "flow_inv cfg (s\<lparr>ctx := c\<rparr>) = flow_inv cfg s"
  by (simp add: flow_inv_def)

lemma flow_inv_worker_return:
  assumes "flow_inv cfg s" "w < length (workers s)"
  shows "flow_inv cfg (worker_return w s)"
proof -
  have "sum_list (map (held (transform cfg)) ((workers s)[w := WDone]))
      \<subseteq># sum_list (map (held (transform cfg)) (workers s))"
    using assms(2) by (intro held_drop) simp_all
  moreover from assms(1)
  have "mset (map Inr (sunk s)) + sum_list (map (held (transform cfg)) (workers s))
        \<subseteq># mset (map (transform cfg) (hist1 s))" by (simp add: flow_inv_def)
  ultimately
  have "mset (map Inr (sunk s)) + sum_list (map (held (transform cfg)) ((workers s)[w := WDone]))
        \<subseteq># mset (map (transform cfg) (hist1 s))"
    by (rule mset_add_subset_trans)
  with assms(1) show ?thesis by (simp add: flow_inv_def)
qed

lemma flow_inv_step:
  assumes inv: "flow_inv cfg s" and st: "step cfg l s = Some s'"
  shows "flow_inv cfg s'"
proof (cases l)
  case SrcStep
  from step_SrcStep [OF st [unfolded SrcStep]] inv show ?thesis
    by (auto simp: flow_inv_def split: if_splits)
next
  case (SrcSend w)
  from step_SrcSend [OF st [unfolded SrcSend]] obtain x ops where
    h: "src s = SrcRun (Emit x # ops) \<or> src s = SrcBlocked x ops" "w < length (workers s)"
       "workers s ! w = WRecv \<or> workers s ! w = WWait"
       "s' = s\<lparr>src := SrcRun ops, workers := (workers s)[w := WProc x], hist1 := hist1 s @ [x]\<rparr>"
    by blast
  from inv h(1) have e: "emits (gen cfg) = hist1 s @ x # emits ops"
    by (auto simp: flow_inv_def)
  from h(3) have "held (transform cfg) (workers s ! w) = {#}" by auto
  then have g: "sum_list (map (held (transform cfg)) ((workers s)[w := WProc x])) =
      sum_list (map (held (transform cfg)) (workers s)) + {#transform cfg x#}"
    using held_gain [OF h(2), of "transform cfg" "WProc x"] by simp
  from inv have "mset (map Inr (sunk s)) + sum_list (map (held (transform cfg)) (workers s))
        \<subseteq># mset (map (transform cfg) (hist1 s))" by (simp add: flow_inv_def)
  then have "mset (map Inr (sunk s)) +
      (sum_list (map (held (transform cfg)) (workers s)) + {#transform cfg x#})
        \<subseteq># mset (map (transform cfg) (hist1 s)) + {#transform cfg x#}"
    by simp
  with e g h(4) show ?thesis by (simp add: flow_inv_def)
next
  case SrcClose
  from step_SrcClose [OF st [unfolded SrcClose]] inv show ?thesis
    by (auto simp: flow_inv_def)
next
  case Spawn
  from step_Spawn [OF st [unfolded Spawn]] inv show ?thesis
    by (auto simp: flow_inv_def)
next
  case SupClose
  from step_SupClose [OF st [unfolded SupClose]] inv show ?thesis
    by (auto simp: flow_inv_def)
next
  case (WorkerWait w)
  from step_WorkerWait [OF st [unfolded WorkerWait]]
  have h: "w < length (workers s)" "workers s ! w = WRecv"
    "s' = s\<lparr>workers := (workers s)[w := WWait]\<rparr>" by simp_all
  have "sum_list (map (held (transform cfg)) ((workers s)[w := WWait])) =
      sum_list (map (held (transform cfg)) (workers s))"
    using h(1,2) by (intro held_same) simp_all
  with inv h(3) show ?thesis by (simp add: flow_inv_def)
next
  case (WorkerClosed w)
  from step_WorkerClosed [OF st [unfolded WorkerClosed]]
  have "w < length (workers s)" "s' = worker_return w s" by simp_all
  with inv show ?thesis by (simp add: flow_inv_worker_return)
next
  case (WorkerCancel w)
  from step_WorkerCancel [OF st [unfolded WorkerCancel]]
  have "w < length (workers s)" "s' = worker_return w s" by simp_all
  with inv show ?thesis by (simp add: flow_inv_worker_return)
next
  case (WorkerProc w)
  from step_WorkerProc [OF st [unfolded WorkerProc]] obtain x where
    h: "w < length (workers s)" "workers s ! w = WProc x"
    "(\<exists>e. transform cfg x = Inl e \<and> s' = worker_return w (s\<lparr>ctx := Stop (Some e) (ctx s)\<rparr>)) \<or>
      (\<exists>r. transform cfg x = Inr r \<and> s' = s\<lparr>workers := (workers s)[w := WSend r]\<rparr>)"
    by blast
  from h(3) show ?thesis
  proof (elim disjE exE conjE)
    fix e assume s': "s' = worker_return w (s\<lparr>ctx := Stop (Some e) (ctx s)\<rparr>)"
    have "flow_inv cfg (worker_return w (s\<lparr>ctx := Stop (Some e) (ctx s)\<rparr>))"
      using inv h(1) by (intro flow_inv_worker_return) (simp_all add: flow_inv_ctx)
    with s' show ?thesis by simp
  next
    fix r assume r: "transform cfg x = Inr r" and s': "s' = s\<lparr>workers := (workers s)[w := WSend r]\<rparr>"
    have "sum_list (map (held (transform cfg)) ((workers s)[w := WSend r])) =
        sum_list (map (held (transform cfg)) (workers s))"
      using h(1,2) r by (intro held_same) simp_all
    with inv s' show ?thesis by (simp add: flow_inv_def)
  qed
next
  case (WorkerSend w)
  from step_WorkerSend [OF st [unfolded WorkerSend]] obtain r where
    h: "w < length (workers s)" "workers s ! w = WSend r"
       "s' = s\<lparr>workers := (workers s)[w := WRecv], sunk := sunk s @ [r]\<rparr>"
    by blast
  have e: "sum_list (map (held (transform cfg)) (workers s)) =
      sum_list (map (held (transform cfg)) ((workers s)[w := WRecv])) + {#Inr r#}"
    using held_lose [OF h(1), of "transform cfg" WRecv] h(2) by simp
  from inv have "mset (map Inr (sunk s)) + sum_list (map (held (transform cfg)) (workers s))
        \<subseteq># mset (map (transform cfg) (hist1 s))" by (simp add: flow_inv_def)
  then have "mset (map Inr (sunk s)) +
      (sum_list (map (held (transform cfg)) ((workers s)[w := WRecv])) + {#Inr r#})
        \<subseteq># mset (map (transform cfg) (hist1 s))"
    by (simp only: e)
  then have "mset (map Inr (sunk s @ [r])) +
      sum_list (map (held (transform cfg)) ((workers s)[w := WRecv]))
        \<subseteq># mset (map (transform cfg) (hist1 s))"
    by (simp add: ac_simps)
  with inv h(3) show ?thesis by (simp add: flow_inv_def)
next
  case SnkClosed
  from step_SnkClosed [OF st [unfolded SnkClosed]] inv show ?thesis
    by (auto simp: flow_inv_def)
next
  case SnkCancel
  from step_SnkCancel [OF st [unfolded SnkCancel]] inv show ?thesis
    by (auto simp: flow_inv_def)
next
  case (ExtStop c)
  from step_ExtStop [OF st [unfolded ExtStop]] inv show ?thesis
    by (auto simp: flow_inv_def)
qed

lemma flow_inv_exec: "exec cfg tr (init cfg) = Some s \<Longrightarrow> flow_inv cfg s"
  by (rule exec_invariant [where P = "flow_inv cfg", OF flow_inv_step flow_inv_init])

lemma count_mset_map:
  "count (mset (map f xs)) y = length (filter (\<lambda>x. f x = y) xs)"
  by (induction xs) auto

lemma two_workers_exec:
  "exec two_workers_cfg two_workers_run (init two_workers_cfg) =
     Some \<lparr>ctx = Background, pwg = 5, fwg = 2, src = SrcRun [], sup = SupLoop 2,
           workers = [WRecv, WRecv], snk = SnkRecv, closes1 = 0, closes2 = 0,
           hist1 = [1, 2], sunk = [4, 1]\<rparr>"
  by (simp add: two_workers_cfg_def two_workers_run_def init_def New_def
      WithCancelCause_def Background_def cancelled_def)

text \<open>
  C6: in every run, for every \<open>workerCount\<close> (in particular with more than one worker) and
  every transform, the multiset of items Sink has observed is contained in the multiset
  of the transformed source items: every result appears at Sink at most as often as
  there are source items that the transform maps to it, so nothing is duplicated or
  invented, and Sink observes at most as many items as the generator emits.
\<close>

theorem Sink_observes_submultiset:
  assumes "exec cfg tr (init cfg) = Some s"
  shows "mset (map Inr (sunk s)) \<subseteq># mset (map (transform cfg) (emits (gen cfg))) \<and>
         (\<forall>r. count (mset (sunk s)) r
               \<le> length (filter (\<lambda>x. transform cfg x = Inr r) (emits (gen cfg)))) \<and>
         length (sunk s) \<le> length (emits (gen cfg))"
proof -
  have inv: "flow_inv cfg s" using assms by (rule flow_inv_exec)
  then obtain rest where rest: "emits (gen cfg) = hist1 s @ rest"
    by (auto simp: flow_inv_def prefix_def)
  from inv have "mset (map Inr (sunk s)) \<subseteq># mset (map (transform cfg) (hist1 s))"
    unfolding flow_inv_def using subset_mset.order_trans mset_subset_eq_add_left by blast
  also have "\<dots> \<subseteq># mset (map (transform cfg) (emits (gen cfg)))"
    by (simp add: rest)
  finally have sub: "mset (map Inr (sunk s)) \<subseteq># mset (map (transform cfg) (emits (gen cfg)))" .
  have cnt: "count (mset (sunk s)) r
      \<le> length (filter (\<lambda>x. transform cfg x = Inr r) (emits (gen cfg)))" for r
  proof -
    have "count (mset (sunk s)) r = length (filter (\<lambda>y. y = r) (sunk s))"
      using count_mset_map [of "\<lambda>x. x" "sunk s" r] by simp
    also have "\<dots> = count (mset (map Inr (sunk s))) (Inr r :: err + 'b)"
      using count_mset_map [of Inr "sunk s" "Inr r :: err + 'b"] by simp
    also have "\<dots> \<le> count (mset (map (transform cfg) (emits (gen cfg)))) (Inr r)"
      using sub by (rule mset_subset_eq_count)
    finally show ?thesis
      using count_mset_map [of "transform cfg" "emits (gen cfg)" "Inr r"] by simp
  qed
  from size_mset_mono [OF sub] have "length (sunk s) \<le> length (emits (gen cfg))" by simp
  with sub cnt show ?thesis by blast
qed

theorem Sink_observes_submultiset_witness:
  "exec two_workers_cfg two_workers_run (init two_workers_cfg) =
     Some \<lparr>ctx = Background, pwg = 5, fwg = 2, src = SrcRun [], sup = SupLoop 2,
           workers = [WRecv, WRecv], snk = SnkRecv, closes1 = 0, closes2 = 0,
           hist1 = [1, 2], sunk = [4, 1]\<rparr> \<and>
   mset (map Inr [4, 1 :: nat]) \<subseteq>#
     mset (map (transform two_workers_cfg) (emits (gen two_workers_cfg)))"
  using Sink_observes_submultiset [OF two_workers_exec] two_workers_exec
  by simp

section \<open>Order with one worker\<close>









section \<open>Workers and cancellation\<close>

lemma done_stays_step:
  assumes w: "w < length (workers s)" and d: "workers s ! w = WDone"
    and st: "step cfg l s = Some s'"
  shows "w < length (workers s') \<and> workers s' ! w = WDone \<and> l \<notin> set (worker_labels w)"
proof (cases l)
  case SrcStep
  from step_SrcStep [OF st [unfolded SrcStep]] w d show ?thesis
    by (auto simp: worker_labels_def SrcStep)
next
  case (SrcSend v)
  from step_SrcSend [OF st [unfolded SrcSend]] w d show ?thesis
    by (auto simp: worker_labels_def SrcSend nth_list_update)
next
  case SrcClose
  from step_SrcClose [OF st [unfolded SrcClose]] w d show ?thesis
    by (auto simp: worker_labels_def SrcClose)
next
  case Spawn
  from step_Spawn [OF st [unfolded Spawn]] w d show ?thesis
    by (auto simp: worker_labels_def Spawn nth_append)
next
  case SupClose
  from step_SupClose [OF st [unfolded SupClose]] w d show ?thesis
    by (auto simp: worker_labels_def SupClose)
next
  case (WorkerWait v)
  from step_WorkerWait [OF st [unfolded WorkerWait]] w d show ?thesis
    by (auto simp: worker_labels_def WorkerWait nth_list_update)
next
  case (WorkerClosed v)
  from step_WorkerClosed [OF st [unfolded WorkerClosed]] w d show ?thesis
    by (auto simp: worker_labels_def WorkerClosed nth_list_update)
next
  case (WorkerCancel v)
  from step_WorkerCancel [OF st [unfolded WorkerCancel]] w d show ?thesis
    by (auto simp: worker_labels_def WorkerCancel nth_list_update)
next
  case (WorkerProc v)
  from step_WorkerProc [OF st [unfolded WorkerProc]] w d show ?thesis
    by (auto simp: worker_labels_def WorkerProc nth_list_update)
next
  case (WorkerSend v)
  from step_WorkerSend [OF st [unfolded WorkerSend]] w d show ?thesis
    by (auto simp: worker_labels_def WorkerSend nth_list_update)
next
  case SnkClosed
  from step_SnkClosed [OF st [unfolded SnkClosed]] w d show ?thesis
    by (auto simp: worker_labels_def SnkClosed)
next
  case SnkCancel
  from step_SnkCancel [OF st [unfolded SnkCancel]] w d show ?thesis
    by (auto simp: worker_labels_def SnkCancel)
next
  case (ExtStop c)
  from step_ExtStop [OF st [unfolded ExtStop]] w d show ?thesis
    by (auto simp: worker_labels_def ExtStop)
qed

lemma done_stays_exec:
  "w < length (workers s) \<Longrightarrow> workers s ! w = WDone \<Longrightarrow> exec cfg tr s = Some s' \<Longrightarrow>
   workers s' ! w = WDone \<and> set tr \<inter> set (worker_labels w) = {}"
proof (induction tr arbitrary: s)
  case Nil then show ?case by simp
next
  case (Cons l tr)
  from Cons.prems(3) obtain s1 where s1: "step cfg l s = Some s1" "exec cfg tr s1 = Some s'"
    by (auto split: option.splits)
  from done_stays_step [OF Cons.prems(1,2) s1(1)]
  have "w < length (workers s1)" "workers s1 ! w = WDone" "l \<notin> set (worker_labels w)"
    by simp_all
  with Cons.IH [OF _ _ s1(2)] show ?case by simp
qed

lemma midstream_exec:
  "exec stop_midstream_cfg
     [Spawn, Spawn, SrcStep, SrcStep, SrcSend 0, SrcStep, WorkerWait 1, ExtStop None, WorkerProc 0]
     (init stop_midstream_cfg) = Some midstream_state"
  by (simp add: stop_midstream_cfg_def midstream_state_def init_def New_def
      WithCancelCause_def Background_def cancelled_def Stop_def cancel_def)

lemma stoppedI:
  "w < length (workers s) \<Longrightarrow> cancelled (ctx s) \<Longrightarrow>
   workers s ! w = WDone \<or> (\<exists>r. workers s ! w = WSend r) \<or> workers s ! w = WWait \<Longrightarrow>
   stopped w s"
  by (auto simp: stopped_def)

lemma stoppedD:
  assumes "stopped w s"
  shows "w < length (workers s)" "cancelled (ctx s)"
    "workers s ! w = WDone \<or> (\<exists>r. workers s ! w = WSend r) \<or> workers s ! w = WWait"
  using assms by (auto simp: stopped_def split: worker.splits)

lemma stopped_step:
  assumes sp: "stopped w s" and st: "step cfg l s = Some s'"
  shows "stopped w s' \<and> sunk s' = sunk s \<and>
         l \<notin> {SrcSend w, WorkerProc w, WorkerSend w} \<and>
         (workers s' ! w = workers s ! w \<or> workers s' ! w = WDone)"
proof -
  note w = stoppedD(1) [OF sp] and c = stoppedD(2) [OF sp] and k = stoppedD(3) [OF sp]
  show ?thesis
  proof (cases l)
    case SrcStep
    from step_SrcStep [OF st [unfolded SrcStep]] show ?thesis
    proof (elim disjE exE conjE)
      assume "s' = s\<lparr>src := SrcRet\<rparr>"
      with w c k show ?thesis by (auto simp: SrcStep intro!: stoppedI)
    next
      fix ops assume "s' = s\<lparr>src := if cancelled (ctx s) then SrcRet else SrcRun ops\<rparr>"
      with w c k show ?thesis by (auto simp: SrcStep intro!: stoppedI)
    next
      fix e ops assume "s' = s\<lparr>ctx := Stop (Some e) (ctx s), src := SrcRet\<rparr>"
      with w c k show ?thesis by (auto simp: SrcStep Stop_cancelled intro!: stoppedI)
    next
      fix x ops assume "s' = s\<lparr>src := SrcBlocked x ops\<rparr>"
      with w c k show ?thesis by (auto simp: SrcStep intro!: stoppedI)
    qed
  next
    case (SrcSend v)
    from step_SrcSend [OF st [unfolded SrcSend]] obtain x ops where
      h: "v < length (workers s)"
         "s' = s\<lparr>src := SrcRun ops, workers := (workers s)[v := WProc x], hist1 := hist1 s @ [x]\<rparr>"
      by blast
    from step_SrcSend_guard [OF st [unfolded SrcSend]] c
    have r: "workers s ! v = WRecv" by blast
    with k have vw: "v \<noteq> w" by auto
    have "stopped w s'"
      using w c k vw h(2) by (intro stoppedI) (auto simp: nth_list_update)
    with vw h(2) show ?thesis by (simp add: SrcSend nth_list_update)
  next
    case (WorkerWait v)
    from step_WorkerWait [OF st [unfolded WorkerWait]] c show ?thesis by simp
  next
    case SrcClose
    from step_SrcClose [OF st [unfolded SrcClose]] w c k show ?thesis
      by (auto simp: SrcClose intro!: stoppedI)
  next
    case Spawn
    from step_Spawn [OF st [unfolded Spawn]] w c k show ?thesis
      by (auto simp: Spawn nth_append intro!: stoppedI)
  next
    case SupClose
    from step_SupClose [OF st [unfolded SupClose]] w c k show ?thesis
      by (auto simp: SupClose intro!: stoppedI)
  next
    case (WorkerClosed v)
    from step_WorkerClosed [OF st [unfolded WorkerClosed]]
    have h: "v < length (workers s)" "s' = worker_return v s" by simp_all
    have "stopped w s'"
      using w c k h by (intro stoppedI) (auto simp: nth_list_update)
    with h w show ?thesis by (auto simp: WorkerClosed nth_list_update)
  next
    case (WorkerCancel v)
    from step_WorkerCancel [OF st [unfolded WorkerCancel]]
    have h: "v < length (workers s)" "s' = worker_return v s" by simp_all
    have "stopped w s'"
      using w c k h by (intro stoppedI) (auto simp: nth_list_update)
    with h w show ?thesis by (auto simp: WorkerCancel nth_list_update)
  next
    case (WorkerProc v)
    from step_WorkerProc [OF st [unfolded WorkerProc]] obtain x where
      h: "v < length (workers s)" "workers s ! v = WProc x"
      "(\<exists>e. transform cfg x = Inl e \<and> s' = worker_return v (s\<lparr>ctx := Stop (Some e) (ctx s)\<rparr>)) \<or>
        (\<exists>r. transform cfg x = Inr r \<and> s' = s\<lparr>workers := (workers s)[v := WSend r]\<rparr>)"
      by blast
    from k h(2) have vw: "v \<noteq> w" by auto
    from h(3) show ?thesis
    proof (elim disjE exE conjE)
      fix e assume s': "s' = worker_return v (s\<lparr>ctx := Stop (Some e) (ctx s)\<rparr>)"
      have "stopped w s'"
        using w c k vw s' by (intro stoppedI) (auto simp: nth_list_update Stop_cancelled)
      with vw s' show ?thesis by (simp add: WorkerProc nth_list_update)
    next
      fix r assume s': "s' = s\<lparr>workers := (workers s)[v := WSend r]\<rparr>"
      have "stopped w s'"
        using w c k vw s' by (intro stoppedI) (auto simp: nth_list_update)
      with vw s' show ?thesis by (simp add: WorkerProc nth_list_update)
    qed
  next
    case (WorkerSend v)
    from step_WorkerSend [OF st [unfolded WorkerSend]] c show ?thesis by auto
  next
    case SnkClosed
    from step_SnkClosed [OF st [unfolded SnkClosed]] w c k show ?thesis
      by (auto simp: SnkClosed intro!: stoppedI)
  next
    case SnkCancel
    from step_SnkCancel [OF st [unfolded SnkCancel]] w c k show ?thesis
      by (auto simp: SnkCancel intro!: stoppedI)
  next
    case (ExtStop x)
    from step_ExtStop [OF st [unfolded ExtStop]] w c k show ?thesis
      by (auto simp: ExtStop Stop_cancelled intro!: stoppedI)
  qed
qed

lemma stopped_exec:
  "stopped w s \<Longrightarrow> exec cfg tr s = Some s' \<Longrightarrow>
   sunk s' = sunk s \<and> set tr \<inter> {SrcSend w, WorkerProc w, WorkerSend w} = {} \<and>
   (workers s' ! w = workers s ! w \<or> workers s' ! w = WDone)"
proof (induction tr arbitrary: s)
  case Nil then show ?case by simp
next
  case (Cons l tr)
  from Cons.prems(2) obtain s1 where s1: "step cfg l s = Some s1" "exec cfg tr s1 = Some s'"
    by (auto split: option.splits)
  from stopped_step [OF Cons.prems(1) s1(1)]
  have a: "stopped w s1" "sunk s1 = sunk s" "l \<notin> {SrcSend w, WorkerProc w, WorkerSend w}"
    "workers s1 ! w = workers s ! w \<or> workers s1 ! w = WDone" by simp_all
  from Cons.IH [OF a(1) s1(2)] a(2,3,4) show ?case by auto
qed

text \<open>
  C7: a worker at either of its two \<^verbatim>\<open>select\<close> statements (reaching the receive from the
  input channel, blocked in that receive, or at the send of a result \<open>r\<close>) races the
  channel operation against cancellation. The cancellation branch is taken only when the
  scope is cancelled, and taking it makes the worker return without sending or
  receiving. A worker that has observed cancellation stays returned and takes part in no
  further action, in particular no send and no receive.

  Send: when the scope is cancelled while the worker is at its send, also with Sink
  ready to receive, returning is the only action the worker has; in every continuation
  the worker is at that send or has returned, it never sends, and Sink consumes nothing
  more: the result is dropped.

  Receive: when the scope is cancelled while the worker is blocked in its receive, also
  with the generator about to send the next item, the only actions the worker has are
  returning on the cancellation and, if the input channel was closed as well, returning
  on the close; in every continuation the worker is blocked in that receive or has
  returned, and it never takes an item from the input channel.
\<close>

theorem worker_races_cancellation:
  assumes w: "w < length (workers s)"
    and at_select: "workers s ! w = WRecv \<or> workers s ! w = WWait \<or> workers s ! w = WSend r"
  shows "step cfg (WorkerCancel w) s =
           (if cancelled (ctx s) then Some (worker_return w s) else None) \<and>
         workers (worker_return w s) ! w = WDone \<and>
         sunk (worker_return w s) = sunk s \<and>
         hist1 (worker_return w s) = hist1 s \<and>
         (\<forall>tr s'. exec cfg tr (worker_return w s) = Some s' \<longrightarrow>
            workers s' ! w = WDone \<and> set tr \<inter> set (worker_labels w) = {}) \<and>
         (cancelled (ctx s) \<and> workers s ! w = WSend r \<longrightarrow>
            filter (\<lambda>l. step cfg l s \<noteq> None) (worker_labels w) = [WorkerCancel w] \<and>
            (\<forall>tr s'. exec cfg tr s = Some s' \<longrightarrow>
               sunk s' = sunk s \<and>
               set tr \<inter> {SrcSend w, WorkerProc w, WorkerSend w} = {} \<and>
               (workers s' ! w = WSend r \<or> workers s' ! w = WDone))) \<and>
         (cancelled (ctx s) \<and> workers s ! w = WWait \<longrightarrow>
            filter (\<lambda>l. step cfg l s \<noteq> None) (worker_labels w) =
              (if 0 < closes1 s then [WorkerClosed w, WorkerCancel w] else [WorkerCancel w]) \<and>
            (\<forall>tr s'. exec cfg tr s = Some s' \<longrightarrow>
               sunk s' = sunk s \<and>
               set tr \<inter> {SrcSend w, WorkerProc w, WorkerSend w} = {} \<and>
               (workers s' ! w = WWait \<or> workers s' ! w = WDone)))"
proof -
  have 1: "step cfg (WorkerCancel w) s =
      (if cancelled (ctx s) then Some (worker_return w s) else None)"
    using w at_select by auto
  have 2: "workers (worker_return w s) ! w = WDone" using w by simp
  have 3: "workers s' ! w = WDone \<and> set tr \<inter> set (worker_labels w) = {}"
    if "exec cfg tr (worker_return w s) = Some s'" for tr s'
    using done_stays_exec [OF _ _ that, of w] w by simp
  have 4: "filter (\<lambda>l. step cfg l s \<noteq> None) (worker_labels w) = [WorkerCancel w]"
    if "cancelled (ctx s)" "workers s ! w = WSend r"
    using that w by (simp add: worker_labels_def split: src_state.splits list.splits gen_op.splits)
  have 5: "sunk s' = sunk s \<and> set tr \<inter> {SrcSend w, WorkerProc w, WorkerSend w} = {} \<and>
      (workers s' ! w = WSend r \<or> workers s' ! w = WDone)"
    if "cancelled (ctx s)" "workers s ! w = WSend r" "exec cfg tr s = Some s'" for tr s'
  proof -
    have "stopped w s" using w that(1,2) by (intro stoppedI) auto
    from stopped_exec [OF this that(3)] that(2) show ?thesis by simp
  qed
  have 6: "filter (\<lambda>l. step cfg l s \<noteq> None) (worker_labels w) =
      (if 0 < closes1 s then [WorkerClosed w, WorkerCancel w] else [WorkerCancel w])"
    if "cancelled (ctx s)" "workers s ! w = WWait"
    using that w by (simp add: worker_labels_def split: src_state.splits list.splits gen_op.splits)
  have 7: "sunk s' = sunk s \<and> set tr \<inter> {SrcSend w, WorkerProc w, WorkerSend w} = {} \<and>
      (workers s' ! w = WWait \<or> workers s' ! w = WDone)"
    if "cancelled (ctx s)" "workers s ! w = WWait" "exec cfg tr s = Some s'" for tr s'
  proof -
    have "stopped w s" using w that(1,2) by (intro stoppedI) auto
    from stopped_exec [OF this that(3)] that(2) show ?thesis by simp
  qed
  have c5: "\<forall>tr s'. exec cfg tr (worker_return w s) = Some s' \<longrightarrow>
      workers s' ! w = WDone \<and> set tr \<inter> set (worker_labels w) = {}"
    using 3 by blast
  have c6: "cancelled (ctx s) \<and> workers s ! w = WSend r \<longrightarrow>
      filter (\<lambda>l. step cfg l s \<noteq> None) (worker_labels w) = [WorkerCancel w] \<and>
      (\<forall>tr s'. exec cfg tr s = Some s' \<longrightarrow>
         sunk s' = sunk s \<and>
         set tr \<inter> {SrcSend w, WorkerProc w, WorkerSend w} = {} \<and>
         (workers s' ! w = WSend r \<or> workers s' ! w = WDone))"
    using 4 5 by blast
  have c7: "cancelled (ctx s) \<and> workers s ! w = WWait \<longrightarrow>
      filter (\<lambda>l. step cfg l s \<noteq> None) (worker_labels w) =
        (if 0 < closes1 s then [WorkerClosed w, WorkerCancel w] else [WorkerCancel w]) \<and>
      (\<forall>tr s'. exec cfg tr s = Some s' \<longrightarrow>
         sunk s' = sunk s \<and>
         set tr \<inter> {SrcSend w, WorkerProc w, WorkerSend w} = {} \<and>
         (workers s' ! w = WWait \<or> workers s' ! w = WDone))"
    using 6 7 by blast
  have c3: "sunk (worker_return w s) = sunk s" by simp
  have c4: "hist1 (worker_return w s) = hist1 s" by simp
  show ?thesis
    by (intro conjI) (fact 1 2 c3 c4 c5 c6 c7)+
qed

theorem worker_races_cancellation_witness:
  "exec stop_midstream_cfg [WorkerCancel 1, WorkerCancel 0, SupClose, SnkCancel, SrcStep]
     midstream_state = Some stop_midstream_end \<and>
   cancelled (ctx midstream_state) \<and> snk midstream_state = SnkRecv \<and>
   src midstream_state = SrcRun [Emit 2] \<and> closes1 midstream_state = 0 \<and>
   (0 < length (workers midstream_state) \<and> workers midstream_state ! 0 = WSend 1 \<and>
    filter (\<lambda>l. step stop_midstream_cfg l midstream_state \<noteq> None) (worker_labels 0)
      = [WorkerCancel 0] \<and>
    sunk stop_midstream_end = sunk midstream_state \<and>
    workers stop_midstream_end ! 0 = WDone) \<and>
   (1 < length (workers midstream_state) \<and> workers midstream_state ! 1 = WWait \<and>
    filter (\<lambda>l. step stop_midstream_cfg l midstream_state \<noteq> None) (worker_labels 1)
      = [WorkerCancel 1] \<and>
    {WorkerCancel 1, WorkerCancel 0, SupClose, SnkCancel, SrcStep}
      \<inter> {SrcSend 1, WorkerProc 1, WorkerSend 1} = {} \<and>
    workers stop_midstream_end ! 1 = WDone)"
proof -
  have e: "exec stop_midstream_cfg [WorkerCancel 1, WorkerCancel 0, SupClose, SnkCancel, SrcStep]
      midstream_state = Some stop_midstream_end"
    by (simp add: stop_midstream_cfg_def midstream_state_def stop_midstream_end_def
        worker_return_def cancelled_def)
  have c: "cancelled (ctx midstream_state)" by (simp add: midstream_state_def cancelled_def)
  have k: "snk midstream_state = SnkRecv" by (simp add: midstream_state_def)
  have g: "src midstream_state = SrcRun [Emit 2]" by (simp add: midstream_state_def)
  have o: "closes1 midstream_state = 0" by (simp add: midstream_state_def)
  have w0: "0 < length (workers midstream_state)" by (simp add: midstream_state_def)
  have a0: "workers midstream_state ! 0 = WSend 1" by (simp add: midstream_state_def)
  note t0 = worker_races_cancellation [OF w0 disjI2 [OF disjI2 [OF a0]], of stop_midstream_cfg]
  from t0 [THEN conjunct2, THEN conjunct2, THEN conjunct2, THEN conjunct2, THEN conjunct2,
      THEN conjunct1] c a0
  have f0: "filter (\<lambda>l. step stop_midstream_cfg l midstream_state \<noteq> None) (worker_labels 0)
      = [WorkerCancel 0]"
    and r0: "\<forall>tr s'. exec stop_midstream_cfg tr midstream_state = Some s' \<longrightarrow>
       sunk s' = sunk midstream_state \<and>
       set tr \<inter> {SrcSend 0, WorkerProc 0, WorkerSend 0} = {} \<and>
       (workers s' ! 0 = WSend 1 \<or> workers s' ! 0 = WDone)"
    by blast+
  from r0 e have s0: "sunk stop_midstream_end = sunk midstream_state" by blast
  have d0: "workers stop_midstream_end ! 0 = WDone" by (simp add: stop_midstream_end_def)
  have w1: "1 < length (workers midstream_state)" by (simp add: midstream_state_def)
  have a1: "workers midstream_state ! 1 = WWait" by (simp add: midstream_state_def)
  note t1 = worker_races_cancellation [OF w1 disjI2 [OF disjI1 [OF a1]], of stop_midstream_cfg 1]
  from t1 [THEN conjunct2, THEN conjunct2, THEN conjunct2, THEN conjunct2, THEN conjunct2,
      THEN conjunct2] c a1 o
  have f1: "filter (\<lambda>l. step stop_midstream_cfg l midstream_state \<noteq> None) (worker_labels 1)
      = [WorkerCancel 1]"
    and r1: "\<forall>tr s'. exec stop_midstream_cfg tr midstream_state = Some s' \<longrightarrow>
       sunk s' = sunk midstream_state \<and>
       set tr \<inter> {SrcSend 1, WorkerProc 1, WorkerSend 1} = {} \<and>
       (workers s' ! 1 = WWait \<or> workers s' ! 1 = WDone)"
    by simp_all
  from r1 e have n1: "{WorkerCancel 1, WorkerCancel 0, SupClose, SnkCancel, SrcStep}
      \<inter> {SrcSend 1, WorkerProc 1, WorkerSend 1} = {}" by fastforce
  have d1: "workers stop_midstream_end ! 1 = WDone" by (simp add: stop_midstream_end_def)
  show ?thesis
    by (intro conjI) (fact e c k g o w0 a0 f0 s0 d0 w1 a1 f1 n1 d1)+
qed

section \<open>Further properties of a run\<close>

lemma ctx_stable_step:
  assumes c: "cancelled (ctx s)" and st: "step cfg l s = Some s'"
  shows "ctx s' = ctx s"
proof (cases l)
  case SrcStep
  from step_SrcStep [OF st [unfolded SrcStep]] c show ?thesis
    by (auto simp: Stop_idem)
next
  case (SrcSend w)
  from step_SrcSend [OF st [unfolded SrcSend]] show ?thesis by auto
next
  case SrcClose
  from step_SrcClose [OF st [unfolded SrcClose]] show ?thesis by auto
next
  case Spawn
  from step_Spawn [OF st [unfolded Spawn]] show ?thesis by auto
next
  case SupClose
  from step_SupClose [OF st [unfolded SupClose]] show ?thesis by auto
next
  case (WorkerWait w)
  from step_WorkerWait [OF st [unfolded WorkerWait]] show ?thesis by auto
next
  case (WorkerClosed w)
  from step_WorkerClosed [OF st [unfolded WorkerClosed]] show ?thesis by auto
next
  case (WorkerCancel w)
  from step_WorkerCancel [OF st [unfolded WorkerCancel]] show ?thesis by auto
next
  case (WorkerProc w)
  from step_WorkerProc [OF st [unfolded WorkerProc]] c show ?thesis
    by (auto simp: Stop_idem)
next
  case (WorkerSend w)
  from step_WorkerSend [OF st [unfolded WorkerSend]] show ?thesis by auto
next
  case SnkClosed
  from step_SnkClosed [OF st [unfolded SnkClosed]] show ?thesis by auto
next
  case SnkCancel
  from step_SnkCancel [OF st [unfolded SnkCancel]] show ?thesis by auto
next
  case (ExtStop x)
  from step_ExtStop [OF st [unfolded ExtStop]] c show ?thesis by (simp add: Stop_idem)
qed

lemma ctx_stable_exec:
  "cancelled (ctx s) \<Longrightarrow> exec cfg tr s = Some s' \<Longrightarrow> ctx s' = ctx s"
proof (induction tr arbitrary: s)
  case Nil then show ?case by simp
next
  case (Cons l tr)
  from Cons.prems(2) obtain s1 where s1: "step cfg l s = Some s1" "exec cfg tr s1 = Some s'"
    by (auto split: option.splits)
  from ctx_stable_step [OF Cons.prems(1) s1(1)] have e: "ctx s1 = ctx s" .
  with Cons.prems(1) have "cancelled (ctx s1)" by simp
  from Cons.IH [OF this s1(2)] e show ?case by simp
qed

text \<open>
  X1: when a transform invocation of a worker returns an error while the scope is not
  yet cancelled, the worker stops the pipeline with that error and returns, and in every
  continuation of the run the scope stays cancelled with that error as its retrievable
  cause, whatever is passed to later calls of \<^verbatim>\<open>Stop\<close>.
\<close>

theorem transform_error_becomes_cause:
  assumes "\<not> cancelled (ctx s)" "w < length (workers s)" "workers s ! w = WProc x"
    "transform cfg x = Inl e"
    "exec cfg tr (worker_return w (s\<lparr>ctx := Stop (Some e) (ctx s)\<rparr>)) = Some s'"
  shows "step cfg (WorkerProc w) s = Some (worker_return w (s\<lparr>ctx := Stop (Some e) (ctx s)\<rparr>)) \<and>
         cancelled (ctx s') \<and> Cause (ctx s') = Some e"
proof -
  let ?s1 = "worker_return w (s\<lparr>ctx := Stop (Some e) (ctx s)\<rparr>)"
  have 1: "step cfg (WorkerProc w) s = Some ?s1" using assms(2-4) by simp
  have c: "cancelled (ctx ?s1)" by (simp add: Stop_cancelled)
  from ctx_stable_exec [OF c assms(5)] have "ctx s' = Stop (Some e) (ctx s)" by simp
  with assms(1) have "cancelled (ctx s') \<and> Cause (ctx s') = Some e"
    by (simp add: Stop_cancelled) (simp add: Stop_def cancel_def cancelled_def Cause_def)
  with 1 show ?thesis by simp
qed

lemma open_fails_mid_exec:
  "exec open_fails_cfg [Spawn, SrcStep, SrcStep, SrcSend 0, SrcStep] (init open_fails_cfg)
     = Some open_fails_mid"
  by (simp add: open_fails_cfg_def open_fails_mid_def init_def New_def
      WithCancelCause_def Background_def cancelled_def)

theorem transform_error_becomes_cause_witness:
  "\<not> cancelled (ctx open_fails_mid) \<and> 0 < length (workers open_fails_mid) \<and>
   workers open_fails_mid ! 0 = WProc 1 \<and>
   transform open_fails_cfg 1 = Inl (Failure ''open'') \<and>
   exec open_fails_cfg [ExtStop (Some (Failure ''late'')), SupClose, SnkClosed, SrcStep]
     (worker_return 0 (open_fails_mid\<lparr>ctx := Stop (Some (Failure ''open'')) (ctx open_fails_mid)\<rparr>))
     = Some open_fails_end \<and>
   Cause (ctx open_fails_end) = Some (Failure ''open'')"
proof -
  have a1: "\<not> cancelled (ctx open_fails_mid)"
    by (simp add: open_fails_mid_def Background_def cancelled_def)
  have a2: "0 < length (workers open_fails_mid)" by (simp add: open_fails_mid_def)
  have a3: "workers open_fails_mid ! 0 = WProc 1" by (simp add: open_fails_mid_def)
  have a4: "transform open_fails_cfg 1 = Inl (Failure ''open'')"
    by (simp add: open_fails_cfg_def)
  have a5: "exec open_fails_cfg [ExtStop (Some (Failure ''late'')), SupClose, SnkClosed, SrcStep]
     (worker_return 0 (open_fails_mid\<lparr>ctx := Stop (Some (Failure ''open'')) (ctx open_fails_mid)\<rparr>))
     = Some open_fails_end"
    by (simp add: open_fails_cfg_def open_fails_mid_def open_fails_end_def worker_return_def
        Background_def Stop_def cancel_def cancelled_def)
  from transform_error_becomes_cause [OF a1 a2 a3 a4 a5] a1 a2 a3 a4 a5
  show ?thesis by blast
qed

text \<open>
  X2: in every run both WaitGroup counters are the numbers of tasks they wait for, so
  they never go negative (no \<^verbatim>\<open>Done\<close> panics), and \<^verbatim>\<open>Wait\<close> returns exactly when Source's
  task, FanOut's supervising task, Sink's task and every worker that was spawned have
  returned.
\<close>

theorem Wait_returns_iff_all_returned:
  assumes "exec cfg tr (init cfg) = Some s"
  shows "0 \<le> pwg s \<and> 0 \<le> fwg s \<and>
         Wait_returns s =
           (src s = SrcDone \<and> sup s = SupDone \<and> snk s = SnkDone \<and>
            filter live (workers s) = [])"
proof -
  have inv: "wg_inv cfg s" using assms by (rule wg_inv_exec)
  have n: "0 \<le> int (length (filter live (workers s)))" by simp
  from inv n show ?thesis
    by (auto simp: wg_inv_def Wait_returns_def tasks_live_def)
qed

theorem Wait_returns_iff_all_returned_witness:
  "exec one_item_cfg one_item_run (init one_item_cfg) =
     Some \<lparr>ctx = Background, pwg = 0, fwg = 0, src = SrcDone, sup = SupDone,
           workers = [WDone], snk = SnkDone, closes1 = 1, closes2 = 1,
           hist1 = [3], sunk = [9]\<rparr> \<and>
   Wait_returns \<lparr>ctx = Background, pwg = 0, fwg = 0, src = SrcDone, sup = SupDone,
           workers = [WDone], snk = SnkDone, closes1 = 1, closes2 = 1,
           hist1 = [3::nat], sunk = [9::nat]\<rparr>"
  using Wait_returns_iff_all_returned [OF one_item_exec] one_item_exec
  by (simp add: live_def)

lemma fan_quiet_step:
  assumes q: "fan_quiet cfg s" and st: "step cfg l s = Some s'"
  shows "fan_quiet cfg s' \<and> hist1 s' = hist1 s \<and> sunk s' = sunk s"
proof -
  from q have nl: "filter live (workers s) = []" by (simp add: fan_quiet_def)
  have d: "workers s ! w = WDone" if "w < length (workers s)" for w
    using no_live_nth [OF nl that] .
  show ?thesis
  proof (cases l)
    case SrcStep
    from step_SrcStep [OF st [unfolded SrcStep]] q show ?thesis
      by (auto simp: fan_quiet_def)
  next
    case (SrcSend w)
    from step_SrcSend [OF st [unfolded SrcSend]] d show ?thesis by auto
  next
    case SrcClose
    from step_SrcClose [OF st [unfolded SrcClose]] q show ?thesis
      by (auto simp: fan_quiet_def)
  next
    case Spawn
    from step_Spawn [OF st [unfolded Spawn]] q show ?thesis
      by (auto simp: fan_quiet_def)
  next
    case SupClose
    from step_SupClose [OF st [unfolded SupClose]] q show ?thesis
      by (auto simp: fan_quiet_def)
  next
    case (WorkerWait w)
    from step_WorkerWait [OF st [unfolded WorkerWait]] d show ?thesis by auto
  next
    case (WorkerClosed w)
    from step_WorkerClosed [OF st [unfolded WorkerClosed]] d show ?thesis by auto
  next
    case (WorkerCancel w)
    from step_WorkerCancel [OF st [unfolded WorkerCancel]] d show ?thesis by auto
  next
    case (WorkerProc w)
    from step_WorkerProc [OF st [unfolded WorkerProc]] d show ?thesis by auto
  next
    case (WorkerSend w)
    from step_WorkerSend [OF st [unfolded WorkerSend]] d show ?thesis by auto
  next
    case SnkClosed
    from step_SnkClosed [OF st [unfolded SnkClosed]] q show ?thesis
      by (auto simp: fan_quiet_def)
  next
    case SnkCancel
    from step_SnkCancel [OF st [unfolded SnkCancel]] q show ?thesis
      by (auto simp: fan_quiet_def)
  next
    case (ExtStop c)
    from step_ExtStop [OF st [unfolded ExtStop]] q show ?thesis
      by (auto simp: fan_quiet_def)
  qed
qed

text \<open>
  X3: once FanOut's loop has ended and every worker has returned, in every continuation
  of the run no further item is received from Source's channel and Sink's consumer is
  not called again.
\<close>

theorem no_reads_after_workers_returned:
  "fan_quiet cfg s \<Longrightarrow> exec cfg tr s = Some s' \<Longrightarrow>
   fan_quiet cfg s' \<and> hist1 s' = hist1 s \<and> sunk s' = sunk s"
proof (induction tr arbitrary: s)
  case Nil then show ?case by simp
next
  case (Cons l tr)
  from Cons.prems(2) obtain s1 where s1: "step cfg l s = Some s1" "exec cfg tr s1 = Some s'"
    by (auto split: option.splits)
  from fan_quiet_step [OF Cons.prems(1) s1(1)]
  have q: "fan_quiet cfg s1" and h: "hist1 s1 = hist1 s" "sunk s1 = sunk s" by simp_all
  from Cons.IH [OF q s1(2)] h show ?case by simp
qed

theorem no_reads_after_workers_returned_witness:
  "fan_quiet open_fails_cfg
     (worker_return 0 (open_fails_mid\<lparr>ctx := Stop (Some (Failure ''open'')) (ctx open_fails_mid)\<rparr>)) \<and>
   exec open_fails_cfg [SupClose, SnkClosed, SrcStep]
     (worker_return 0 (open_fails_mid\<lparr>ctx := Stop (Some (Failure ''open'')) (ctx open_fails_mid)\<rparr>))
     = Some open_fails_end \<and>
   hist1 open_fails_end = [1] \<and> sunk open_fails_end = []"
proof -
  let ?s = "worker_return 0 (open_fails_mid\<lparr>ctx := Stop (Some (Failure ''open'')) (ctx open_fails_mid)\<rparr>)"
  have q: "fan_quiet open_fails_cfg ?s"
    by (simp add: fan_quiet_def open_fails_cfg_def open_fails_mid_def live_def)
  have e: "exec open_fails_cfg [SupClose, SnkClosed, SrcStep] ?s = Some open_fails_end"
    by (simp add: open_fails_cfg_def open_fails_mid_def open_fails_end_def worker_return_def
        Background_def Stop_def cancel_def cancelled_def)
  have h: "hist1 ?s = [1]" "sunk ?s = []" by (simp_all add: open_fails_mid_def)
  from no_reads_after_workers_returned [OF q e] q e h show ?thesis by simp
qed

end
